theory Spec2Isabelle
  imports Main
begin

section \<open>Data model of mini_chess.py\<close>

text \<open>
  Colours are the strings \<^verbatim>\<open>'w'\<close> and \<^verbatim>\<open>'b'\<close> of the source, piece kinds
  the one-letter strings \<^verbatim>\<open>'K','Q','R','B','N','P'\<close>.
\<close>

datatype color = White | Black

datatype kind = King | Queen | Rook | Bishop | Knight | Pawn

text \<open>The dictionary \<^verbatim>\<open>PIECE_VALUES\<close>.\<close>

fun PIECE_VALUES :: "kind \<Rightarrow> int" where
  "PIECE_VALUES Pawn = 1"
| "PIECE_VALUES Knight = 3"
| "PIECE_VALUES Bishop = 3"
| "PIECE_VALUES Rook = 5"
| "PIECE_VALUES Queen = 9"
| "PIECE_VALUES King = 0"

record Piece =
  color :: color
  kind :: kind

text \<open>The field \<^verbatim>\<open>end\<close> of the source's \<^verbatim>\<open>Move\<close> is called \<open>end_sq\<close> here.\<close>

record Move =
  start :: "int \<times> int"
  end_sq :: "int \<times> int"
  promotion :: "kind option"

text \<open>
  \<^verbatim>\<open>Board.board\<close> is a list of rows, each a list of optional pieces; row 0 is the
  top (Black) side.
\<close>

record Board =
  board :: "Piece option list list"
  to_move :: color

abbreviation (input) ROWS :: int where "ROWS \<equiv> 8"
abbreviation (input) COLS :: int where "COLS \<equiv> 8"

text \<open>
  The constructor builds eight rows of eight squares and no operation changes a list's
  length, so every board the program holds satisfies \<open>wf_board\<close>. The direct reads
  \<^verbatim>\<open>self.board[r][c]\<close> of the source are inside the lists exactly on such boards.
\<close>

definition wf_board :: "Board \<Rightarrow> bool" where
  "wf_board b \<longleftrightarrow> length (board b) = 8 \<and> list_all (\<lambda>row. length row = 8) (board b)"

datatype error = IndexError

section \<open>Board\<close>

definition initial_rows :: "Piece option list list" where
  "initial_rows =
    [map (\<lambda>k. Some \<lparr>color = Black, kind = k\<rparr>)
       [Rook, Knight, Bishop, Queen, King, Bishop, Knight, Rook],
     replicate 8 (Some \<lparr>color = Black, kind = Pawn\<rparr>),
     replicate 8 None, replicate 8 None, replicate 8 None, replicate 8 None,
     replicate 8 (Some \<lparr>color = White, kind = Pawn\<rparr>),
     map (\<lambda>k. Some \<lparr>color = White, kind = k\<rparr>)
       [Rook, Knight, Bishop, Queen, King, Bishop, Knight, Rook]]"

text \<open>\<^verbatim>\<open>Board()\<close>: the opening position, White to move.\<close>

definition initial_board :: Board where
  "initial_board = \<lparr>board = initial_rows, to_move = White\<rparr>"

definition clone :: "Board \<Rightarrow> Board" where
  "clone b =
    \<lparr>board = map (map (\<lambda>p. case p of None \<Rightarrow> None
                                   | Some q \<Rightarrow> Some \<lparr>color = color q, kind = kind q\<rparr>)) (board b),
     to_move = to_move b\<rparr>"

definition in_bounds :: "int \<Rightarrow> int \<Rightarrow> bool" where
  "in_bounds r c \<longleftrightarrow> 0 \<le> r \<and> r < ROWS \<and> 0 \<le> c \<and> c < COLS"

definition get :: "Board \<Rightarrow> int \<Rightarrow> int \<Rightarrow> Piece option" where
  "get b r c = (if \<not> in_bounds r c then None else board b ! nat r ! nat c)"

text \<open>
  Python list indexing: an index \<open>i\<close> with \<open>-n \<le> i < 0\<close> counts from the end, any
  other index outside \<open>[0, n)\<close> raises \<^verbatim>\<open>IndexError\<close>.
\<close>

definition py_index :: "nat \<Rightarrow> int \<Rightarrow> nat option" where
  "py_index n i =
    (if 0 \<le> i \<and> i < int n then Some (nat i)
     else if - int n \<le> i \<and> i < 0 then Some (nat (i + int n))
     else None)"

text \<open>\<^verbatim>\<open>Board.set\<close>: \<^verbatim>\<open>self.board[r][c] = piece\<close>, with no bounds check of its own.\<close>

definition set_sq :: "Board \<Rightarrow> int \<Rightarrow> int \<Rightarrow> Piece option \<Rightarrow> error + Board" where
  "set_sq b r c piece =
    (case py_index (length (board b)) r of
       None \<Rightarrow> Inl IndexError
     | Some i \<Rightarrow>
        (case py_index (length (board b ! i)) c of
           None \<Rightarrow> Inl IndexError
         | Some j \<Rightarrow> Inr (b\<lparr>board := (board b)[i := (board b ! i)[j := piece]]\<rparr>)))"

text \<open>
  \<^verbatim>\<open>Board.move_piece\<close>. An \<^verbatim>\<open>IndexError\<close> of either \<^verbatim>\<open>set\<close> leaves the
  method; the value model keeps no board in that case.
\<close>

definition move_piece :: "Board \<Rightarrow> Move \<Rightarrow> error + Board" where
  "move_piece b mv =
    (case start mv of (sr, sc) \<Rightarrow>
     case end_sq mv of (er, ec) \<Rightarrow>
       let piece = get b sr sc in
       (case set_sq b sr sc None of
          Inl e \<Rightarrow> Inl e
        | Inr b1 \<Rightarrow>
           (case (case (promotion mv, piece) of
                    (Some k, Some p) \<Rightarrow>
                      if kind p = Pawn then set_sq b1 er ec (Some \<lparr>color = color p, kind = k\<rparr>)
                      else set_sq b1 er ec piece
                  | _ \<Rightarrow> set_sq b1 er ec piece) of
              Inl e \<Rightarrow> Inl e
            | Inr b2 \<Rightarrow> Inr (b2\<lparr>to_move := (if to_move b2 = White then Black else White)\<rparr>))))"

text \<open>\<^verbatim>\<open>Board.all_pieces\<close>: the occupied squares in row-major order.\<close>

definition all_pieces :: "Board \<Rightarrow> (int \<times> int \<times> Piece) list" where
  "all_pieces b =
    concat (map (\<lambda>r. concat (map (\<lambda>c. case board b ! nat r ! nat c of
                                          None \<Rightarrow> []
                                        | Some p \<Rightarrow> [(r, c, p)]) [0..COLS - 1])) [0..ROWS - 1])"

definition material :: "Board \<Rightarrow> int" where
  "material b =
    fold (\<lambda>(_, _, p) score.
            score + (if color p = White then PIECE_VALUES (kind p) else - PIECE_VALUES (kind p)))
         (all_pieces b) 0"

section \<open>Rules\<close>

definition maybe_promote :: "Move \<Rightarrow> color \<Rightarrow> int \<Rightarrow> Move" where
  "maybe_promote mv col dest_row =
    (if (col = White \<and> dest_row = 0) \<or> (col = Black \<and> dest_row = 7)
     then mv\<lparr>promotion := Some Queen\<rparr> else mv)"

definition pawn_moves :: "Board \<Rightarrow> int \<Rightarrow> int \<Rightarrow> color \<Rightarrow> Move list" where
  "pawn_moves b r c col =
    (let dir = (if col = White then - 1 else 1);
         start_row = (if col = White then 6 else 1);
         nr = r + dir;
         forward =
           (if in_bounds nr c \<and> get b nr c = None then
              maybe_promote \<lparr>start = (r, c), end_sq = (nr, c), promotion = None\<rparr> col nr #
              (let nr2 = r + 2 * dir in
               if r = start_row \<and> get b nr2 c = None
               then [\<lparr>start = (r, c), end_sq = (nr2, c), promotion = None\<rparr>] else [])
            else []);
         captures =
           concat (map (\<lambda>dc.
             let nc = c + dc; nr = r + dir in
             if in_bounds nr nc then
               (case get b nr nc of
                  None \<Rightarrow> []
                | Some target \<Rightarrow>
                    if color target \<noteq> col
                    then [maybe_promote \<lparr>start = (r, c), end_sq = (nr, nc), promotion = None\<rparr> col nr]
                    else [])
             else []) [- 1, 1])
     in forward @ captures)"

definition knight_offsets :: "(int \<times> int) list" where
  "knight_offsets = [(- 2, - 1), (- 2, 1), (- 1, - 2), (- 1, 2), (1, - 2), (1, 2), (2, - 1), (2, 1)]"

definition knight_moves :: "Board \<Rightarrow> int \<Rightarrow> int \<Rightarrow> color \<Rightarrow> Move list" where
  "knight_moves b r c col =
    concat (map (\<lambda>(dr, dc).
      let nr = r + dr; nc = c + dc in
      if \<not> in_bounds nr nc then []
      else (case get b nr nc of
              None \<Rightarrow> [\<lparr>start = (r, c), end_sq = (nr, nc), promotion = None\<rparr>]
            | Some target \<Rightarrow>
                if color target \<noteq> col
                then [\<lparr>start = (r, c), end_sq = (nr, nc), promotion = None\<rparr>] else []))
      knight_offsets)"

text \<open>
  The \<^verbatim>\<open>while board.in_bounds(nr, nc)\<close> loop of \<^verbatim>\<open>_slider_moves\<close> for one
  direction; \<open>moves\<close> is the list built so far. A loop that never ends is \<open>None\<close>.
\<close>

partial_function (option) slider_walk ::
  "Board \<Rightarrow> int \<Rightarrow> int \<Rightarrow> color \<Rightarrow> int \<Rightarrow> int \<Rightarrow> int \<Rightarrow> int \<Rightarrow> Move list \<Rightarrow> Move list option" where
  "slider_walk b r c col dr dc nr nc moves =
    (if in_bounds nr nc then
       (case get b nr nc of
          None \<Rightarrow>
            slider_walk b r c col dr dc (nr + dr) (nc + dc)
              (moves @ [\<lparr>start = (r, c), end_sq = (nr, nc), promotion = None\<rparr>])
        | Some target \<Rightarrow>
            if color target \<noteq> col
            then Some (moves @ [\<lparr>start = (r, c), end_sq = (nr, nc), promotion = None\<rparr>])
            else Some moves)
     else Some moves)"

declare slider_walk.simps [code]

fun slider_dirs ::
  "Board \<Rightarrow> int \<Rightarrow> int \<Rightarrow> color \<Rightarrow> (int \<times> int) list \<Rightarrow> Move list \<Rightarrow> Move list option" where
  "slider_dirs b r c col [] moves = Some moves"
| "slider_dirs b r c col ((dr, dc) # ds) moves =
    (case slider_walk b r c col dr dc (r + dr) (c + dc) moves of
       None \<Rightarrow> None
     | Some moves' \<Rightarrow> slider_dirs b r c col ds moves')"

definition slider_moves ::
  "Board \<Rightarrow> int \<Rightarrow> int \<Rightarrow> color \<Rightarrow> (int \<times> int) list \<Rightarrow> Move list option" where
  "slider_moves b r c col directions = slider_dirs b r c col directions []"

definition king_moves :: "Board \<Rightarrow> int \<Rightarrow> int \<Rightarrow> color \<Rightarrow> Move list" where
  "king_moves b r c col =
    concat (map (\<lambda>dr. concat (map (\<lambda>dc.
      if dr = 0 \<and> dc = 0 then []
      else let nr = r + dr; nc = c + dc in
        if \<not> in_bounds nr nc then []
        else (case get b nr nc of
                None \<Rightarrow> [\<lparr>start = (r, c), end_sq = (nr, nc), promotion = None\<rparr>]
              | Some target \<Rightarrow>
                  if color target \<noteq> col
                  then [\<lparr>start = (r, c), end_sq = (nr, nc), promotion = None\<rparr>] else []))
      [- 1, 0, 1])) [- 1, 0, 1])"

definition diagonals :: "(int \<times> int) list" where
  "diagonals = [(- 1, - 1), (- 1, 1), (1, - 1), (1, 1)]"

definition orthogonals :: "(int \<times> int) list" where
  "orthogonals = [(- 1, 0), (1, 0), (0, - 1), (0, 1)]"

definition piece_moves :: "Board \<Rightarrow> int \<Rightarrow> int \<Rightarrow> Piece \<Rightarrow> Move list option" where
  "piece_moves b r c p =
    (case kind p of
       Pawn \<Rightarrow> Some (pawn_moves b r c (color p))
     | Knight \<Rightarrow> Some (knight_moves b r c (color p))
     | Bishop \<Rightarrow> slider_moves b r c (color p) diagonals
     | Rook \<Rightarrow> slider_moves b r c (color p) orthogonals
     | Queen \<Rightarrow> slider_moves b r c (color p) (diagonals @ orthogonals)
     | King \<Rightarrow> Some (king_moves b r c (color p)))"

text \<open>The loop of \<^verbatim>\<open>generate_moves\<close> over \<^verbatim>\<open>board.all_pieces()\<close>.\<close>

fun generate_loop ::
  "Board \<Rightarrow> color \<Rightarrow> (int \<times> int \<times> Piece) list \<Rightarrow> Move list \<Rightarrow> Move list option" where
  "generate_loop b col [] moves = Some moves"
| "generate_loop b col ((r, c, p) # ps) moves =
    (if color p \<noteq> col then generate_loop b col ps moves
     else (case piece_moves b r c p of
             None \<Rightarrow> None
           | Some ms \<Rightarrow> generate_loop b col ps (moves @ ms)))"

definition generate_moves :: "Board \<Rightarrow> color \<Rightarrow> Move list option" where
  "generate_moves b col = generate_loop b col (all_pieces b) []"

text \<open>
  The ray loop of \<^verbatim>\<open>is_square_attacked\<close> for one direction: \<open>Some True\<close> is the
  \<^verbatim>\<open>return True\<close>, \<open>Some False\<close> the end of the loop (by \<^verbatim>\<open>break\<close> or by
  leaving the board).
\<close>

partial_function (option) attack_walk ::
  "Board \<Rightarrow> int \<Rightarrow> int \<Rightarrow> int \<Rightarrow> int \<Rightarrow> int \<Rightarrow> int \<Rightarrow> bool option" where
  "attack_walk b r c dr dc nr nc =
    (if in_bounds nr nc then
       (if nr = r \<and> nc = c then Some True
        else if get b nr nc \<noteq> None then Some False
        else attack_walk b r c dr dc (nr + dr) (nc + dc))
     else Some False)"

declare attack_walk.simps [code]

fun attack_dirs :: "Board \<Rightarrow> int \<Rightarrow> int \<Rightarrow> int \<Rightarrow> int \<Rightarrow> (int \<times> int) list \<Rightarrow> bool option" where
  "attack_dirs b r c rr cc [] = Some False"
| "attack_dirs b r c rr cc ((dr, dc) # ds) =
    (case attack_walk b r c dr dc (rr + dr) (cc + dc) of
       None \<Rightarrow> None
     | Some True \<Rightarrow> Some True
     | Some False \<Rightarrow> attack_dirs b r c rr cc ds)"

text \<open>
  The list \<^verbatim>\<open>directions\<close> that \<^verbatim>\<open>is_square_attacked\<close> builds for a bishop, a
  rook or a queen.
\<close>

definition attack_directions :: "kind \<Rightarrow> (int \<times> int) list" where
  "attack_directions k =
    (if k = Bishop \<or> k = Queen then diagonals else []) @
    (if k = Rook \<or> k = Queen then orthogonals else [])"

text \<open>
  The body of the loop of \<^verbatim>\<open>is_square_attacked\<close> for one piece of \<open>by_color\<close>:
  \<open>Some True\<close> when it returns \<^verbatim>\<open>True\<close>, \<open>Some False\<close> when it goes on to the
  next piece.
\<close>

definition piece_attacks :: "Board \<Rightarrow> int \<Rightarrow> int \<Rightarrow> color \<Rightarrow> int \<Rightarrow> int \<Rightarrow> Piece \<Rightarrow> bool option" where
  "piece_attacks b r c by_color rr cc p =
    (case kind p of
       Pawn \<Rightarrow>
         (let dir = (if by_color = White then - 1 else 1) in
          Some (list_ex (\<lambda>dc. let nr = rr + dir; nc = cc + dc in
                               nr = r \<and> nc = c \<and> in_bounds nr nc) [- 1, 1]))
     | Knight \<Rightarrow>
         Some (list_ex (\<lambda>(dr, dc). rr + dr = r \<and> cc + dc = c \<and> in_bounds r c) knight_offsets)
     | King \<Rightarrow>
         Some (list_ex (\<lambda>dr. list_ex (\<lambda>dc. \<not> (dr = 0 \<and> dc = 0) \<and> rr + dr = r \<and> cc + dc = c)
                                      [- 1, 0, 1]) [- 1, 0, 1])
     | _ \<Rightarrow> attack_dirs b r c rr cc (attack_directions (kind p)))"

fun attack_loop ::
  "Board \<Rightarrow> int \<Rightarrow> int \<Rightarrow> color \<Rightarrow> (int \<times> int \<times> Piece) list \<Rightarrow> bool option" where
  "attack_loop b r c by_color [] = Some False"
| "attack_loop b r c by_color ((rr, cc, p) # ps) =
    (if color p \<noteq> by_color then attack_loop b r c by_color ps
     else (case piece_attacks b r c by_color rr cc p of
             None \<Rightarrow> None
           | Some True \<Rightarrow> Some True
           | Some False \<Rightarrow> attack_loop b r c by_color ps))"

definition is_square_attacked :: "Board \<Rightarrow> int \<Rightarrow> int \<Rightarrow> color \<Rightarrow> bool option" where
  "is_square_attacked b r c by_color = attack_loop b r c by_color (all_pieces b)"

section \<open>SimpleAI\<close>

text \<open>
  The comparands of \<^verbatim>\<open>choose_move\<close>: \<^verbatim>\<open>-math.inf\<close>, an integer score, and
  \<^verbatim>\<open>math.inf\<close>; \<open>ext_less x y\<close> is Python's \<^verbatim>\<open>x < y\<close> on them.
\<close>

datatype ext = NegInf | Fin int | PosInf

fun ext_less :: "ext \<Rightarrow> ext \<Rightarrow> bool" where
  "ext_less (Fin x) (Fin y) \<longleftrightarrow> x < y"
| "ext_less NegInf (Fin y) \<longleftrightarrow> True"
| "ext_less NegInf PosInf \<longleftrightarrow> True"
| "ext_less (Fin x) PosInf \<longleftrightarrow> True"
| "ext_less x y \<longleftrightarrow> False"

text \<open>
  A call either raises (\<open>Inl\<close>), returns (\<open>Inr\<close>), or never comes back (\<open>None\<close>).
\<close>

type_synonym 'a outcome = "(error + 'a) option"

text \<open>
  The first loop of \<^verbatim>\<open>choose_move\<close>, over the moves still to visit, with
  \<^verbatim>\<open>best_free_capture\<close> and \<^verbatim>\<open>best_capture_value\<close> as they stand.
\<close>

fun free_capture_loop ::
  "Board \<Rightarrow> color \<Rightarrow> Move list \<Rightarrow> Move option \<Rightarrow> ext \<Rightarrow> Move option outcome" where
  "free_capture_loop b self [] best_free_capture best_capture_value = Some (Inr best_free_capture)"
| "free_capture_loop b self (mv # mvs) best_free_capture best_capture_value =
    (case end_sq mv of (er, ec) \<Rightarrow>
      (case get b er ec of
         None \<Rightarrow> free_capture_loop b self mvs best_free_capture best_capture_value
       | Some target \<Rightarrow>
           if color target \<noteq> self then
             (case move_piece (clone b) mv of
                Inl e \<Rightarrow> Some (Inl e)
              | Inr sim \<Rightarrow>
                 (case is_square_attacked sim er ec (if self = Black then White else Black) of
                    None \<Rightarrow> None
                  | Some attacked \<Rightarrow>
                      if \<not> attacked then
                        (let val = PIECE_VALUES (kind target) in
                         if ext_less best_capture_value (Fin val)
                         then free_capture_loop b self mvs (Some mv) (Fin val)
                         else free_capture_loop b self mvs best_free_capture best_capture_value)
                      else free_capture_loop b self mvs best_free_capture best_capture_value))
           else free_capture_loop b self mvs best_free_capture best_capture_value))"

text \<open>The second loop, with \<^verbatim>\<open>best_move\<close> and \<^verbatim>\<open>best_eval\<close> as they stand.\<close>

fun material_loop ::
  "Board \<Rightarrow> color \<Rightarrow> Move list \<Rightarrow> Move option \<Rightarrow> ext \<Rightarrow> error + Move option" where
  "material_loop b self [] best_move best_eval = Inr best_move"
| "material_loop b self (mv # mvs) best_move best_eval =
    (case move_piece (clone b) mv of
       Inl e \<Rightarrow> Inl e
     | Inr sim \<Rightarrow>
        (let eval_score = material sim in
         if self = White then
           (if ext_less best_eval (Fin eval_score)
            then material_loop b self mvs (Some mv) (Fin eval_score)
            else material_loop b self mvs best_move best_eval)
         else
           (if ext_less (Fin eval_score) best_eval
            then material_loop b self mvs (Some mv) (Fin eval_score)
            else material_loop b self mvs best_move best_eval)))"

definition choose_move :: "color \<Rightarrow> Board \<Rightarrow> Move option outcome" where
  "choose_move self b =
    (case generate_moves b self of
       None \<Rightarrow> None
     | Some moves \<Rightarrow>
        if moves = [] then Some (Inr None)
        else
          (case free_capture_loop b self moves None NegInf of
             None \<Rightarrow> None
           | Some (Inl e) \<Rightarrow> Some (Inl e)
           | Some (Inr (Some best_free_capture)) \<Rightarrow> Some (Inr (Some best_free_capture))
           | Some (Inr None) \<Rightarrow>
               (case material_loop b self moves None (if self = White then NegInf else PosInf) of
                  Inl e \<Rightarrow> Some (Inl e)
                | Inr (Some best_move) \<Rightarrow> Some (Inr (Some best_move))
                | Inr None \<Rightarrow> Some (Inr (case moves of [] \<Rightarrow> None | m # _ \<Rightarrow> Some m)))))"

section \<open>The objects behind a board\<close>

text \<open>
  \<^verbatim>\<open>clone\<close> and \<^verbatim>\<open>move_piece\<close> are about object identity: a \<^verbatim>\<open>Board\<close> object
  refers to its outer list, the outer list to eight row lists, a row to the
  \<^verbatim>\<open>Piece\<close> objects on it. The store keeps the objects of each class in a list of
  its own; an address is an index into that list and a new object is appended, so it
  gets an address no older object has.
\<close>

record heap =
  pieces :: "Piece list"
  rows :: "nat option list list"
  grids :: "nat list list"
  boards :: "(nat \<times> color) list"

text \<open>The cells of a row refer to pieces with addresses from \<open>lo\<close> up to, not including, \<open>hi\<close>.\<close>

definition cells_in :: "nat \<Rightarrow> nat \<Rightarrow> nat option list \<Rightarrow> bool" where
  "cells_in lo hi cs \<longleftrightarrow>
    list_all (\<lambda>cell. case cell of None \<Rightarrow> True | Some pa \<Rightarrow> lo \<le> pa \<and> pa < hi) cs"

text \<open>
  The board object \<open>a\<close> of a store is well formed when its outer list has eight
  distinct rows of eight cells and every reference leads to an object of the store.
\<close>

definition wf_heap :: "heap \<Rightarrow> nat \<Rightarrow> bool" where
  "wf_heap h a \<longleftrightarrow>
    a < length (boards h) \<and> fst (boards h ! a) < length (grids h) \<and>
    length (grids h ! fst (boards h ! a)) = 8 \<and> distinct (grids h ! fst (boards h ! a)) \<and>
    list_all (\<lambda>ra. ra < length (rows h) \<and> length (rows h ! ra) = 8 \<and>
                   cells_in 0 (length (pieces h)) (rows h ! ra))
      (grids h ! fst (boards h ! a))"

text \<open>The values a row list and a board object hold.\<close>

definition row_val :: "heap \<Rightarrow> nat \<Rightarrow> Piece option list" where
  "row_val h ra = map (map_option (\<lambda>pa. pieces h ! pa)) (rows h ! ra)"

definition read_board :: "heap \<Rightarrow> nat \<Rightarrow> Board" where
  "read_board h a =
    \<lparr>board = map (row_val h) (grids h ! fst (boards h ! a)), to_move = snd (boards h ! a)\<rparr>"

text \<open>\<^verbatim>\<open>Board.get\<close> on the store: the reference in the cell, if any.\<close>

definition get_h :: "heap \<Rightarrow> nat \<Rightarrow> int \<Rightarrow> int \<Rightarrow> nat option" where
  "get_h h a r c =
    (if \<not> in_bounds r c then None
     else rows h ! (grids h ! fst (boards h ! a) ! nat r) ! nat c)"

text \<open>\<^verbatim>\<open>Board.set\<close> on the store: one cell of one row list is overwritten in place.\<close>

definition set_h :: "heap \<Rightarrow> nat \<Rightarrow> int \<Rightarrow> int \<Rightarrow> nat option \<Rightarrow> error + heap" where
  "set_h h a r c cell =
    (let g = grids h ! fst (boards h ! a) in
     case py_index (length g) r of
       None \<Rightarrow> Inl IndexError
     | Some i \<Rightarrow>
        (let ra = g ! i in
         case py_index (length (rows h ! ra)) c of
           None \<Rightarrow> Inl IndexError
         | Some j \<Rightarrow> Inr (h\<lparr>rows := (rows h)[ra := (rows h ! ra)[j := cell]]\<rparr>)))"

text \<open>
  \<^verbatim>\<open>Board.move_piece\<close> on the store. The result is the store as the call leaves it,
  also when it leaves by an \<^verbatim>\<open>IndexError\<close> (the second component).
\<close>

definition move_piece_h :: "heap \<Rightarrow> nat \<Rightarrow> Move \<Rightarrow> heap \<times> error option" where
  "move_piece_h h a mv =
    (case start mv of (sr, sc) \<Rightarrow>
     case end_sq mv of (er, ec) \<Rightarrow>
       let piece = get_h h a sr sc in
       (case set_h h a sr sc None of
          Inl e \<Rightarrow> (h, Some e)
        | Inr h1 \<Rightarrow>
           (let promoted =
                  (case (promotion mv, piece) of
                     (Some k, Some pa) \<Rightarrow> kind (pieces h1 ! pa) = Pawn
                   | _ \<Rightarrow> False);
                h2 = (if promoted
                      then h1\<lparr>pieces := pieces h1 @
                              [\<lparr>color = color (pieces h1 ! the piece), kind = the (promotion mv)\<rparr>]\<rparr>
                      else h1);
                cell = (if promoted then Some (length (pieces h1)) else piece)
            in case set_h h2 a er ec cell of
                 Inl e \<Rightarrow> (h2, Some e)
               | Inr h3 \<Rightarrow>
                   (h3\<lparr>boards := (boards h3)
                          [a := (fst (boards h3 ! a),
                                 if snd (boards h3 ! a) = White then Black else White)]\<rparr>,
                    None))))"

text \<open>
  \<^verbatim>\<open>Board.clone\<close> on the store: a new \<^verbatim>\<open>Piece\<close> for every piece, a new list for
  every row, a new outer list and a new \<^verbatim>\<open>Board\<close> object.
\<close>

fun clone_cells :: "heap \<Rightarrow> nat option list \<Rightarrow> nat option list \<times> heap" where
  "clone_cells h [] = ([], h)"
| "clone_cells h (None # cs) = (case clone_cells h cs of (cs', h') \<Rightarrow> (None # cs', h'))"
| "clone_cells h (Some pa # cs) =
    (let p = pieces h ! pa;
         h1 = h\<lparr>pieces := pieces h @ [\<lparr>color = color p, kind = kind p\<rparr>]\<rparr>
     in case clone_cells h1 cs of (cs', h2) \<Rightarrow> (Some (length (pieces h)) # cs', h2))"

fun clone_rows :: "heap \<Rightarrow> nat list \<Rightarrow> nat list \<times> heap" where
  "clone_rows h [] = ([], h)"
| "clone_rows h (ra # ras) =
    (case clone_cells h (rows h ! ra) of (cells, h1) \<Rightarrow>
       let h2 = h1\<lparr>rows := rows h1 @ [cells]\<rparr>
       in case clone_rows h2 ras of (ras', h3) \<Rightarrow> (length (rows h1) # ras', h3))"

definition clone_h :: "heap \<Rightarrow> nat \<Rightarrow> nat \<times> heap" where
  "clone_h h a =
    (case boards h ! a of (g, t) \<Rightarrow>
     case clone_rows h (grids h ! g) of (ras, h1) \<Rightarrow>
       let h2 = h1\<lparr>grids := grids h1 @ [ras]\<rparr>;
           h3 = h2\<lparr>boards := boards h2 @ [(length (grids h1), t)]\<rparr>
       in (length (boards h2), h3))"

text \<open>Any sequence of \<^verbatim>\<open>move_piece\<close> calls on the board object \<open>a\<close>.\<close>

definition run_moves :: "heap \<Rightarrow> nat \<Rightarrow> Move list \<Rightarrow> heap" where
  "run_moves h a mvs = fold (\<lambda>mv h'. fst (move_piece_h h' a mv)) mvs h"

text \<open>
  \<^verbatim>\<open>SimpleAI.choose_move\<close> on the store. It is the same code as \<open>choose_move\<close>
  above, now with the objects it creates: every simulation clones the board object and
  moves on the clone. \<^verbatim>\<open>generate_moves\<close>, \<^verbatim>\<open>is_square_attacked\<close> and
  \<^verbatim>\<open>material\<close> only read a board, so they are applied to the value the object holds.
  The result is the outcome together with the store the call leaves behind.
\<close>

fun free_capture_loop_h ::
  "color \<Rightarrow> nat \<Rightarrow> Move list \<Rightarrow> Move option \<Rightarrow> ext \<Rightarrow> heap \<Rightarrow> Move option outcome \<times> heap" where
  "free_capture_loop_h self a [] best_free_capture best_capture_value h =
    (Some (Inr best_free_capture), h)"
| "free_capture_loop_h self a (mv # mvs) best_free_capture best_capture_value h =
    (case end_sq mv of (er, ec) \<Rightarrow>
      (case get_h h a er ec of
         None \<Rightarrow> free_capture_loop_h self a mvs best_free_capture best_capture_value h
       | Some ta \<Rightarrow>
           let target = pieces h ! ta in
           if color target \<noteq> self then
             (case clone_h h a of (sim, h1) \<Rightarrow>
              case move_piece_h h1 sim mv of
                (h2, Some e) \<Rightarrow> (Some (Inl e), h2)
              | (h2, None) \<Rightarrow>
                 (case is_square_attacked (read_board h2 sim) er ec
                         (if self = Black then White else Black) of
                    None \<Rightarrow> (None, h2)
                  | Some attacked \<Rightarrow>
                      if \<not> attacked then
                        (let val = PIECE_VALUES (kind target) in
                         if ext_less best_capture_value (Fin val)
                         then free_capture_loop_h self a mvs (Some mv) (Fin val) h2
                         else free_capture_loop_h self a mvs best_free_capture best_capture_value h2)
                      else free_capture_loop_h self a mvs best_free_capture best_capture_value h2))
           else free_capture_loop_h self a mvs best_free_capture best_capture_value h))"

fun material_loop_h ::
  "color \<Rightarrow> nat \<Rightarrow> Move list \<Rightarrow> Move option \<Rightarrow> ext \<Rightarrow> heap \<Rightarrow> (error + Move option) \<times> heap" where
  "material_loop_h self a [] best_move best_eval h = (Inr best_move, h)"
| "material_loop_h self a (mv # mvs) best_move best_eval h =
    (case clone_h h a of (sim, h1) \<Rightarrow>
     case move_piece_h h1 sim mv of
       (h2, Some e) \<Rightarrow> (Inl e, h2)
     | (h2, None) \<Rightarrow>
        (let eval_score = material (read_board h2 sim) in
         if self = White then
           (if ext_less best_eval (Fin eval_score)
            then material_loop_h self a mvs (Some mv) (Fin eval_score) h2
            else material_loop_h self a mvs best_move best_eval h2)
         else
           (if ext_less (Fin eval_score) best_eval
            then material_loop_h self a mvs (Some mv) (Fin eval_score) h2
            else material_loop_h self a mvs best_move best_eval h2)))"

definition choose_move_h :: "color \<Rightarrow> heap \<Rightarrow> nat \<Rightarrow> Move option outcome \<times> heap" where
  "choose_move_h self h a =
    (case generate_moves (read_board h a) self of
       None \<Rightarrow> (None, h)
     | Some moves \<Rightarrow>
        if moves = [] then (Some (Inr None), h)
        else
          (case free_capture_loop_h self a moves None NegInf h of
             (None, h1) \<Rightarrow> (None, h1)
           | (Some (Inl e), h1) \<Rightarrow> (Some (Inl e), h1)
           | (Some (Inr (Some best_free_capture)), h1) \<Rightarrow> (Some (Inr (Some best_free_capture)), h1)
           | (Some (Inr None), h1) \<Rightarrow>
               (case material_loop_h self a moves None (if self = White then NegInf else PosInf) h1 of
                  (Inl e, h2) \<Rightarrow> (Some (Inl e), h2)
                | (Inr (Some best_move), h2) \<Rightarrow> (Some (Inr (Some best_move)), h2)
                | (Inr None, h2) \<Rightarrow>
                    (Some (Inr (case moves of [] \<Rightarrow> None | m # _ \<Rightarrow> Some m)), h2))))"

text \<open>
  The pieces a board object refers to, and what it means for two board objects to
  share no object: they are different objects with different outer lists, no row list in
  common and no piece in common.
\<close>

definition piece_refs :: "heap \<Rightarrow> nat \<Rightarrow> nat list" where
  "piece_refs h a =
    concat (map (\<lambda>ra. concat (map (\<lambda>cell. case cell of None \<Rightarrow> [] | Some pa \<Rightarrow> [pa]) (rows h ! ra)))
              (grids h ! fst (boards h ! a)))"

definition separate :: "heap \<Rightarrow> nat \<Rightarrow> nat \<Rightarrow> bool" where
  "separate h a a' \<longleftrightarrow>
    wf_heap h a \<and> wf_heap h a' \<and> a \<noteq> a' \<and> fst (boards h ! a) \<noteq> fst (boards h ! a') \<and>
    set (grids h ! fst (boards h ! a)) \<inter> set (grids h ! fst (boards h ! a')) = {} \<and>
    set (piece_refs h a) \<inter> set (piece_refs h a') = {}"

text \<open>
  Between the stores \<open>h\<close> and \<open>h1\<close> nothing that the board object \<open>a\<close> refers to was
  written: the store only grew, and the object, its outer list and its rows are as they
  were.
\<close>

definition untouched :: "heap \<Rightarrow> heap \<Rightarrow> nat \<Rightarrow> bool" where
  "untouched h h1 a \<longleftrightarrow>
    (\<exists>np. pieces h1 = pieces h @ np) \<and> length (rows h) \<le> length (rows h1) \<and>
    length (grids h) \<le> length (grids h1) \<and> length (boards h) \<le> length (boards h1) \<and>
    boards h1 ! a = boards h ! a \<and>
    grids h1 ! fst (boards h ! a) = grids h ! fst (boards h ! a) \<and>
    list_all (\<lambda>ra. rows h1 ! ra = rows h ! ra) (grids h ! fst (boards h ! a))"

definition rows_ok :: "heap \<Rightarrow> nat list \<Rightarrow> bool" where
  "rows_ok h ras \<longleftrightarrow>
     list_all (\<lambda>ra. ra < length (rows h) \<and> cells_in 0 (length (pieces h)) (rows h ! ra)) ras"

section \<open>Vocabulary of the statements\<close>

text \<open>
  What a generated move of the piece on \<open>(r, c)\<close> must satisfy: it leaves from that
  square and lands inside the board on a square that is empty or holds a piece of
  another colour than \<open>col\<close>.
\<close>

definition lands_ok :: "Board \<Rightarrow> color \<Rightarrow> int \<Rightarrow> int \<Rightarrow> Move \<Rightarrow> bool" where
  "lands_ok b col r c m \<longleftrightarrow>
    start m = (r, c) \<and> in_bounds (fst (end_sq m)) (snd (end_sq m)) \<and>
    (case get b (fst (end_sq m)) (snd (end_sq m)) of None \<Rightarrow> True | Some q \<Rightarrow> color q \<noteq> col)"

text \<open>
  A move as \<^verbatim>\<open>generate_moves\<close> emits it for the piece \<open>p\<close> of colour \<open>col\<close>
  on \<open>(r, c)\<close>: it lands well and carries the promotion to a queen exactly when \<open>p\<close>
  is a pawn and the move ends on row 0 (White) or row 7 (Black).
\<close>

definition generated_by :: "Board \<Rightarrow> color \<Rightarrow> Move \<Rightarrow> int \<Rightarrow> int \<Rightarrow> Piece \<Rightarrow> bool" where
  "generated_by b col m r c p \<longleftrightarrow>
    color p = col \<and> lands_ok b col r c m \<and>
    promotion m = (if kind p = Pawn \<and> fst (end_sq m) = (if col = White then 0 else 7)
                   then Some Queen else None)"

text \<open>
  Walking outward from \<open>(rr, cc)\<close> in direction \<open>d\<close> reaches \<open>(r, c)\<close> at or before
  the first occupied square: \<open>(r, c)\<close> is the \<open>k\<close>-th square of the ray and the squares
  before it are empty.
\<close>

definition ray_reaches :: "Board \<Rightarrow> int \<Rightarrow> int \<Rightarrow> int \<times> int \<Rightarrow> int \<Rightarrow> int \<Rightarrow> bool" where
  "ray_reaches b rr cc d r c \<longleftrightarrow>
    (\<exists>k\<in>{1..7}. r = rr + k * fst d \<and> c = cc + k * snd d \<and>
       (\<forall>j\<in>{1..<k}. get b (rr + j * fst d) (cc + j * snd d) = None))"

text \<open>
  The directions of the sliding pieces, as the rules of chess give them: the four
  diagonals for a bishop, the two directions of the row and the two of the column for a
  rook, all eight for a queen. The other kinds do not slide.
\<close>

fun slider_rays :: "kind \<Rightarrow> (int \<times> int) set" where
  "slider_rays Bishop = {(- 1, - 1), (- 1, 1), (1, - 1), (1, 1)}"
| "slider_rays Rook = {(- 1, 0), (1, 0), (0, - 1), (0, 1)}"
| "slider_rays Queen =
     {(- 1, - 1), (- 1, 1), (1, - 1), (1, 1), (- 1, 0), (1, 0), (0, - 1), (0, 1)}"
| "slider_rays Pawn = {}"
| "slider_rays Knight = {}"
| "slider_rays King = {}"

text \<open>The piece on \<open>(rr, cc)\<close> is the only piece of colour \<open>col\<close> on the board.\<close>

definition sole_piece :: "Board \<Rightarrow> color \<Rightarrow> int \<Rightarrow> int \<Rightarrow> bool" where
  "sole_piece b col rr cc \<longleftrightarrow>
    list_all (\<lambda>(r, c, q). color q = col \<longrightarrow> r = rr \<and> c = cc) (all_pieces b)"

text \<open>
  The number of steps a walk from \<open>(nr, nc)\<close> in direction \<open>(dr, dc)\<close> can still take
  inside the board; it bounds both ray loops.
\<close>

definition steps_left :: "int \<Rightarrow> int \<Rightarrow> int \<Rightarrow> int \<Rightarrow> nat" where
  "steps_left dr dc nr nc =
    (if 0 < dr then nat (8 - nr) else if dr < 0 then nat (nr + 1)
     else if 0 < dc then nat (8 - nc) else nat (nc + 1))"

text \<open>
  The words of the move chooser. A move is simulated on a clone; a safe capture lands on
  a piece of the other colour and, after the simulation, its destination is not attacked
  by the opponent; its value is the material value of the piece it takes.
\<close>

definition simulate :: "Board \<Rightarrow> Move \<Rightarrow> error + Board" where
  "simulate b mv = move_piece (clone b) mv"

definition safe_capture :: "color \<Rightarrow> Board \<Rightarrow> Move \<Rightarrow> bool" where
  "safe_capture self b mv \<longleftrightarrow>
    (case get b (fst (end_sq mv)) (snd (end_sq mv)) of
       None \<Rightarrow> False
     | Some target \<Rightarrow>
         color target \<noteq> self \<and>
         (case simulate b mv of
            Inl e \<Rightarrow> False
          | Inr sim \<Rightarrow>
              is_square_attacked sim (fst (end_sq mv)) (snd (end_sq mv))
                (if self = Black then White else Black) = Some False))"

definition captured_value :: "Board \<Rightarrow> Move \<Rightarrow> int" where
  "captured_value b mv =
    (case get b (fst (end_sq mv)) (snd (end_sq mv)) of
       None \<Rightarrow> 0
     | Some target \<Rightarrow> PIECE_VALUES (kind target))"

definition material_after :: "Board \<Rightarrow> Move \<Rightarrow> int" where
  "material_after b mv = (case simulate b mv of Inl e \<Rightarrow> 0 | Inr sim \<Rightarrow> material sim)"

definition move_in_bounds :: "Move \<Rightarrow> bool" where
  "move_in_bounds m \<longleftrightarrow>
    in_bounds (fst (start m)) (snd (start m)) \<and> in_bounds (fst (end_sq m)) (snd (end_sq m))"

text \<open>
  One step of a scan that keeps the first element of greatest value among those that
  satisfy \<open>P\<close>: the state is the element kept so far and its value.
\<close>

definition pick_step :: "('a \<Rightarrow> bool) \<Rightarrow> ('a \<Rightarrow> int) \<Rightarrow> 'a \<Rightarrow> 'a option \<times> ext \<Rightarrow> 'a option \<times> ext" where
  "pick_step P g x acc =
    (if P x \<and> ext_less (snd acc) (Fin (g x)) then (Some x, Fin (g x)) else acc)"

fun ext_neg :: "ext \<Rightarrow> ext" where
  "ext_neg NegInf = PosInf"
| "ext_neg (Fin x) = Fin (- x)"
| "ext_neg PosInf = NegInf"

section \<open>Example positions\<close>

text \<open>An empty board and the placing of one piece, to write positions down.\<close>

definition empty_board :: Board where
  "empty_board = \<lparr>board = replicate 8 (replicate 8 None), to_move = White\<rparr>"

definition place :: "int \<Rightarrow> int \<Rightarrow> color \<Rightarrow> kind \<Rightarrow> Board \<Rightarrow> Board" where
  "place r c col k b =
    b\<lparr>board := (board b)[nat r := (board b ! nat r)[nat c := Some \<lparr>color = col, kind = k\<rparr>]]\<rparr>"

text \<open>A white pawn one step from promotion, next to a black rook it can capture.\<close>

definition promotion_board :: Board where
  "promotion_board =
    place 1 0 White Pawn (place 0 1 Black Rook (place 7 4 White King empty_board))"

text \<open>
  A white rook on (4, 4) that can take a queen guarded by a pawn, and two unguarded
  pawns on its row, one of them with a knight behind it.
\<close>

definition capture_board :: Board where
  "capture_board =
    place 4 4 White Rook (place 1 4 Black Queen (place 0 3 Black Pawn
      (place 4 2 Black Pawn (place 4 6 Black Pawn (place 4 7 Black Knight empty_board)))))"

text \<open>The moves of the white rook on \<open>capture_board\<close>, as generated.\<close>

definition capture_board_moves :: "Move list" where
  "capture_board_moves =
    map (\<lambda>e. \<lparr>start = (4, 4), end_sq = e, promotion = None\<rparr>)
      [(3, 4), (2, 4), (1, 4), (5, 4), (6, 4), (7, 4), (4, 3), (4, 2), (4, 5), (4, 6)]"

text \<open>
  A white rook on (4, 4) standing between a black queen on (1, 4) and a black rook on
  (7, 4), with a black pawn on its row. While the white rook stays on (4, 4) neither the
  queen's square nor the black rook's square is attacked by Black; once it has left
  (4, 4) to take one of them, the other one attacks it along the opened column.
\<close>

definition xray_board :: Board where
  "xray_board =
    place 4 4 White Rook (place 1 4 Black Queen (place 7 4 Black Rook
      (place 4 2 Black Pawn empty_board)))"

text \<open>The moves of the white rook on \<open>xray_board\<close>, as generated.\<close>

definition xray_board_moves :: "Move list" where
  "xray_board_moves =
    map (\<lambda>e. \<lparr>start = (4, 4), end_sq = e, promotion = None\<rparr>)
      [(3, 4), (2, 4), (1, 4), (5, 4), (6, 4), (7, 4), (4, 3), (4, 2), (4, 5), (4, 6), (4, 7)]"

text \<open>
  A white bishop on (4, 4): a black pawn stands two squares up one of its diagonals with
  a black knight behind it, and a black rook stands on its row.
\<close>

definition bishop_board :: Board where
  "bishop_board =
    place 4 4 White Bishop (place 2 2 Black Pawn (place 1 1 Black Knight
      (place 4 6 Black Rook empty_board)))"

text \<open>A white queen alone on (4, 4).\<close>

definition queen_board :: Board where
  "queen_board = place 4 4 White Queen empty_board"

text \<open>
  A black queen that can take a white rook guarded by a pawn: no capture is safe, and
  taking the rook is the move that leaves the least material.
\<close>

definition trade_board :: Board where
  "trade_board =
    (place 1 4 Black Queen (place 4 4 White Rook (place 5 3 White Pawn empty_board)))
      \<lparr>to_move := Black\<rparr>"

text \<open>The moves of the black queen on \<open>trade_board\<close>, as generated.\<close>

definition trade_board_moves :: "Move list" where
  "trade_board_moves =
    map (\<lambda>e. \<lparr>start = (1, 4), end_sq = e, promotion = None\<rparr>)
      [(0, 3), (0, 5), (2, 3), (3, 2), (4, 1), (5, 0), (2, 5), (3, 6), (4, 7), (0, 4),
       (2, 4), (3, 4), (4, 4), (1, 3), (1, 2), (1, 1), (1, 0), (1, 5), (1, 6), (1, 7)]"

text \<open>
  The store after \<^verbatim>\<open>Board()\<close>: thirty-two pieces, eight rows, one outer list and
  one board object, at address 0.
\<close>

definition initial_heap :: heap where
  "initial_heap =
    \<lparr>pieces = concat (map (\<lambda>row. concat (map (\<lambda>cell. case cell of None \<Rightarrow> [] | Some p \<Rightarrow> [p]) row))
                       initial_rows),
     rows = [map Some [0..<8], map Some [8..<16],
             replicate 8 None, replicate 8 None, replicate 8 None, replicate 8 None,
             map Some [16..<24], map Some [24..<32]],
     grids = [[0, 1, 2, 3, 4, 5, 6, 7]],
     boards = [(0, White)]\<rparr>"

text \<open>A store with one board object, at address 0, and no piece on the board.\<close>

definition bare_heap :: heap where
  "bare_heap =
    \<lparr>pieces = [], rows = replicate 8 (replicate 8 None),
     grids = [[0, 1, 2, 3, 4, 5, 6, 7]], boards = [(0, White)]\<rparr>"

section \<open>Board updates\<close>

lemma py_index_in: "0 \<le> i \<Longrightarrow> i < int n \<Longrightarrow> py_index n i = Some (nat i)"
  by (simp add: py_index_def)

lemma wf_board_row: "wf_board b \<Longrightarrow> i < 8 \<Longrightarrow> length (board b ! i) = 8"
  by (simp add: wf_board_def list_all_length)

lemma set_sq_in_bounds:
  assumes "wf_board b" "in_bounds r c"
  shows "set_sq b r c piece =
    Inr (b\<lparr>board := (board b)[nat r := (board b ! nat r)[nat c := piece]]\<rparr>)"
proof -
  from assms have r: "0 \<le> r" "r < 8" and c: "0 \<le> c" "c < 8"
    by (simp_all add: in_bounds_def)
  have lb: "length (board b) = 8" using assms(1) by (simp add: wf_board_def)
  have lr: "length (board b ! nat r) = 8" using assms(1) r by (simp add: wf_board_row)
  show ?thesis
    using r c by (simp add: set_sq_def lb lr py_index_in)
qed

lemma wf_board_update:
  assumes "wf_board b" "in_bounds r c"
  shows "wf_board (b\<lparr>board := (board b)[nat r := (board b ! nat r)[nat c := piece]]\<rparr>)"
proof -
  have "length ((board b)[nat r := (board b ! nat r)[nat c := piece]] ! n) = 8" if "n < 8" for n
    using assms that by (cases "n = nat r") (simp_all add: wf_board_def list_all_length)
  then show ?thesis using assms by (simp add: wf_board_def list_all_length)
qed

lemma get_update:
  assumes "wf_board b" "in_bounds r c"
  shows "get (b\<lparr>board := (board b)[nat r := (board b ! nat r)[nat c := piece]]\<rparr>) r' c' =
    (if r' = r \<and> c' = c then piece else get b r' c')"
proof (cases "in_bounds r' c'")
  case False
  with assms show ?thesis by (auto simp: get_def)
next
  case True
  from assms True have r: "0 \<le> r" "r < 8" "0 \<le> c" "c < 8" "0 \<le> r'" "r' < 8" "0 \<le> c'" "c' < 8"
    by (simp_all add: in_bounds_def)
  have lb: "length (board b) = 8" using assms(1) by (simp add: wf_board_def)
  have lr: "length (board b ! nat r) = 8" using assms(1) r by (simp add: wf_board_row)
  show ?thesis using True r
    by (auto simp: get_def lb lr nth_list_update nat_eq_iff)
qed


lemma move_piece_in_bounds:
  fixes pr :: "kind option"
  assumes wf: "wf_board b" and s: "in_bounds sr sc" and e: "in_bounds er ec"
  defines "placed \<equiv> (case (pr, get b sr sc) of
                        (Some k, Some p) \<Rightarrow>
                          if kind p = Pawn then Some \<lparr>color = color p, kind = k\<rparr> else Some p
                      | (_, occ) \<Rightarrow> occ)"
  defines "b1 \<equiv> b\<lparr>board := (board b)[nat sr := (board b ! nat sr)[nat sc := None]]\<rparr>"
  shows "move_piece b \<lparr>start = (sr, sc), end_sq = (er, ec), promotion = pr\<rparr> =
    Inr (b1\<lparr>board := (board b1)[nat er := (board b1 ! nat er)[nat ec := placed]],
            to_move := (if to_move b = White then Black else White)\<rparr>)"
proof -
  have wf1: "wf_board b1" unfolding b1_def using wf s by (rule wf_board_update)
  have s1: "set_sq b sr sc None = Inr b1"
    unfolding b1_def using wf s by (rule set_sq_in_bounds)
  have s2: "set_sq b1 er ec x =
      Inr (b1\<lparr>board := (board b1)[nat er := (board b1 ! nat er)[nat ec := x]]\<rparr>)" for x
    using wf1 e by (rule set_sq_in_bounds)
  have tm: "to_move b1 = to_move b" by (simp add: b1_def)
  show ?thesis
    by (simp add: move_piece_def s1 s2 placed_def tm split: option.split)
qed

lemma move_piece_squares:
  assumes wf: "wf_board b" and s: "in_bounds sr sc" and e: "in_bounds er ec"
    and ne: "(sr, sc) \<noteq> (er, ec)"
  shows "\<exists>b'. move_piece b \<lparr>start = (sr, sc), end_sq = (er, ec), promotion = pr\<rparr> = Inr b' \<and>
      wf_board b' \<and>
      get b' sr sc = None \<and>
      get b' er ec =
        (case (pr, get b sr sc) of
           (Some k, Some p) \<Rightarrow>
             if kind p = Pawn then Some \<lparr>color = color p, kind = k\<rparr> else Some p
         | (_, occ) \<Rightarrow> occ) \<and>
      (\<forall>r c. (r, c) \<noteq> (sr, sc) \<and> (r, c) \<noteq> (er, ec) \<longrightarrow> get b' r c = get b r c)"
proof -
  define placed where "placed = (case (pr, get b sr sc) of
                        (Some k, Some p) \<Rightarrow>
                          if kind p = Pawn then Some \<lparr>color = color p, kind = k\<rparr> else Some p
                      | (_, occ) \<Rightarrow> occ)"
  define b1 where "b1 = b\<lparr>board := (board b)[nat sr := (board b ! nat sr)[nat sc := None]]\<rparr>"
  define b2 where "b2 = b1\<lparr>board := (board b1)[nat er := (board b1 ! nat er)[nat ec := placed]]\<rparr>"
  define b3 where "b3 = b2\<lparr>to_move := (if to_move b = White then Black else White)\<rparr>"
  have wf1: "wf_board b1" unfolding b1_def using wf s by (rule wf_board_update)
  have wf2: "wf_board b2" unfolding b2_def using wf1 e by (rule wf_board_update)
  have wf3: "wf_board b3" using wf2 by (simp add: b3_def wf_board_def)
  have g1: "get b1 r c = (if r = sr \<and> c = sc then None else get b r c)" for r c
    unfolding b1_def using wf s by (rule get_update)
  have g2: "get b2 r c = (if r = er \<and> c = ec then placed else get b1 r c)" for r c
    unfolding b2_def using wf1 e by (rule get_update)
  have g3: "get b3 r c = get b2 r c" for r c
    by (simp add: get_def b3_def)
  have mp: "move_piece b \<lparr>start = (sr, sc), end_sq = (er, ec), promotion = pr\<rparr> = Inr b3"
    using move_piece_in_bounds[OF wf s e, of pr]
    by (simp add: b3_def b2_def b1_def placed_def)
  show ?thesis
    unfolding mp placed_def[symmetric] using ne
    by (intro exI[of _ b3] conjI) (auto simp: wf3 g3 g2 g1)
qed

section \<open>C4: the effect of move_piece\<close>

text \<open>
  C4, as amended. On a well-formed board, \<^verbatim>\<open>move_piece\<close> with an in-bounds move
  returns normally; afterwards the end square holds the occupant of the start square (or,
  when the move carries a promotion and that occupant is a pawn, a piece of the pawn's
  colour and the promotion kind), the start square is empty whenever it differs from the
  end square, \<^verbatim>\<open>to_move\<close> is the other colour, and every square other than start
  and end reads as before.
\<close>

theorem move_piece_effect:
  assumes wf: "wf_board b" and s: "in_bounds sr sc" and e: "in_bounds er ec"
  shows "\<exists>b'. move_piece b \<lparr>start = (sr, sc), end_sq = (er, ec), promotion = pr\<rparr> = Inr b' \<and>
      wf_board b' \<and>
      get b' er ec =
        (case (pr, get b sr sc) of
           (Some k, Some p) \<Rightarrow>
             if kind p = Pawn then Some \<lparr>color = color p, kind = k\<rparr> else Some p
         | (_, occ) \<Rightarrow> occ) \<and>
      ((sr, sc) \<noteq> (er, ec) \<longrightarrow> get b' sr sc = None) \<and>
      to_move b' = (if to_move b = White then Black else White) \<and>
      (\<forall>r c. (r, c) \<noteq> (sr, sc) \<longrightarrow> (r, c) \<noteq> (er, ec) \<longrightarrow> get b' r c = get b r c)"
proof -
  define placed where "placed = (case (pr, get b sr sc) of
                        (Some k, Some p) \<Rightarrow>
                          if kind p = Pawn then Some \<lparr>color = color p, kind = k\<rparr> else Some p
                      | (_, occ) \<Rightarrow> occ)"
  define b1 where "b1 = b\<lparr>board := (board b)[nat sr := (board b ! nat sr)[nat sc := None]]\<rparr>"
  define b2 where "b2 = b1\<lparr>board := (board b1)[nat er := (board b1 ! nat er)[nat ec := placed]]\<rparr>"
  define b3 where "b3 = b2\<lparr>to_move := (if to_move b = White then Black else White)\<rparr>"
  have wf1: "wf_board b1" unfolding b1_def using wf s by (rule wf_board_update)
  have wf2: "wf_board b2" unfolding b2_def using wf1 e by (rule wf_board_update)
  have wf3: "wf_board b3" using wf2 by (simp add: b3_def wf_board_def)
  have g1: "get b1 r c = (if r = sr \<and> c = sc then None else get b r c)" for r c
    unfolding b1_def using wf s by (rule get_update)
  have g2: "get b2 r c = (if r = er \<and> c = ec then placed else get b1 r c)" for r c
    unfolding b2_def using wf1 e by (rule get_update)
  have g3: "get b3 r c = get b2 r c" for r c
    by (simp add: get_def b3_def)
  have mp: "move_piece b \<lparr>start = (sr, sc), end_sq = (er, ec), promotion = pr\<rparr> = Inr b3"
    using move_piece_in_bounds[OF wf s e, of pr]
    by (simp add: b3_def b2_def b1_def placed_def)
  have tm: "to_move b3 = (if to_move b = White then Black else White)"
    by (simp add: b3_def)
  show ?thesis
    unfolding mp placed_def[symmetric]
    by (intro exI[of _ b3] conjI) (simp_all add: wf3 g3 g2 g1 tm)
qed


lemma wf_initial_board: "wf_board initial_board"
  by (simp add: wf_board_def initial_board_def initial_rows_def)

theorem move_piece_effect_witness:
  "wf_board initial_board \<and> in_bounds 6 0 \<and> in_bounds 4 0 \<and>
   (\<exists>b'. move_piece initial_board \<lparr>start = (6, 0), end_sq = (4, 0), promotion = None\<rparr> = Inr b' \<and>
      get b' 4 0 = Some \<lparr>color = White, kind = Pawn\<rparr> \<and> get b' 6 0 = None \<and>
      to_move b' = Black \<and> get b' 0 0 = Some \<lparr>color = Black, kind = Rook\<rparr>)"
proof -
  have ib: "in_bounds 6 0" "in_bounds 4 0" by (simp_all add: in_bounds_def)
  have g: "get initial_board 6 0 = Some \<lparr>color = White, kind = Pawn\<rparr>"
          "get initial_board 0 0 = Some \<lparr>color = Black, kind = Rook\<rparr>"
          "to_move initial_board = White"
    by (simp_all add: get_def in_bounds_def initial_board_def initial_rows_def)
  from move_piece_effect[OF wf_initial_board ib, of None]
  obtain b' where "move_piece initial_board \<lparr>start = (6, 0), end_sq = (4, 0), promotion = None\<rparr> = Inr b'"
    "get b' 4 0 = Some \<lparr>color = White, kind = Pawn\<rparr>" "get b' 6 0 = None"
      "to_move b' = Black" "get b' 0 0 = Some \<lparr>color = Black, kind = Rook\<rparr>"
    by (auto simp: g)
  then show ?thesis using wf_initial_board ib by blast
qed

text \<open>
  The claim as written promises an empty start square for every in-bounds move. For a
  move whose end is its start the second write wins: the pawn of the opening position at
  (6, 0) is still there after the move (6, 0) to (6, 0).
\<close>

theorem move_piece_same_square_counterexample:
  "move_piece initial_board \<lparr>start = (6, 0), end_sq = (6, 0), promotion = None\<rparr> =
     Inr (initial_board\<lparr>to_move := Black\<rparr>) \<and>
   in_bounds 6 0 \<and>
   get (initial_board\<lparr>to_move := Black\<rparr>) 6 0 = Some \<lparr>color = White, kind = Pawn\<rparr>"
proof -
  have ib: "in_bounds 6 0" by (simp add: in_bounds_def)
  have "move_piece initial_board \<lparr>start = (6, 0), end_sq = (6, 0), promotion = None\<rparr> =
     Inr (initial_board\<lparr>to_move := Black\<rparr>)"
    unfolding move_piece_in_bounds[OF wf_initial_board ib ib]
    by (simp add: get_def in_bounds_def initial_board_def initial_rows_def eval_nat_numeral)
  moreover have "get (initial_board\<lparr>to_move := Black\<rparr>) 6 0 = Some \<lparr>color = White, kind = Pawn\<rparr>"
    by (simp add: get_def in_bounds_def initial_board_def initial_rows_def)
  ultimately show ?thesis using ib by simp
qed

section \<open>Move generation\<close>

lemma all_pieces_iff:
  "(r, c, p) \<in> set (all_pieces b) \<longleftrightarrow> in_bounds r c \<and> get b r c = Some p"
  by (auto simp: all_pieces_def get_def in_bounds_def split: option.splits)

lemma steps_left_decreases:
  assumes "in_bounds nr nc" "dr \<noteq> 0 \<or> dc \<noteq> 0"
  shows "steps_left dr dc (nr + dr) (nc + dc) < steps_left dr dc nr nc"
  using assms by (auto simp: steps_left_def in_bounds_def)

lemma slider_walk_result:
  assumes "dr \<noteq> 0 \<or> dc \<noteq> 0"
  shows "\<exists>ms. slider_walk b r c col dr dc nr nc acc = Some (acc @ ms) \<and>
               (\<forall>m\<in>set ms. lands_ok b col r c m \<and> promotion m = None)"
proof (induction "steps_left dr dc nr nc" arbitrary: nr nc acc rule: less_induct)
  case less
  show ?case
  proof (cases "in_bounds nr nc")
    case False
    then show ?thesis by (subst slider_walk.simps) simp
  next
    case ib: True
    show ?thesis
    proof (cases "get b nr nc")
      case (Some target)
      with ib show ?thesis
        by (subst slider_walk.simps) (simp add: lands_ok_def)
    next
      case None
      let ?m = "\<lparr>start = (r, c), end_sq = (nr, nc), promotion = None\<rparr>"
      from less[OF steps_left_decreases[OF ib assms], of "acc @ [?m]"]
      obtain ms where ms: "slider_walk b r c col dr dc (nr + dr) (nc + dc) (acc @ [?m]) =
            Some ((acc @ [?m]) @ ms)"
          "\<forall>m\<in>set ms. lands_ok b col r c m \<and> promotion m = None"
        by blast
      have "slider_walk b r c col dr dc nr nc acc = Some (acc @ (?m # ms))"
        using ib None ms(1) by (subst slider_walk.simps) simp
      moreover have "lands_ok b col r c ?m" using ib None by (simp add: lands_ok_def)
      ultimately show ?thesis using ms(2) by (intro exI[of _ "?m # ms"]) simp
    qed
  qed
qed

lemma slider_dirs_result:
  assumes "\<forall>(dr, dc)\<in>set ds. dr \<noteq> 0 \<or> dc \<noteq> 0"
  shows "\<exists>ms. slider_dirs b r c col ds acc = Some (acc @ ms) \<and>
               (\<forall>m\<in>set ms. lands_ok b col r c m \<and> promotion m = None)"
  using assms
proof (induction ds arbitrary: acc)
  case Nil
  then show ?case by simp
next
  case (Cons d ds)
  obtain dr dc where d: "d = (dr, dc)" by (cases d)
  from Cons.prems d have nz: "dr \<noteq> 0 \<or> dc \<noteq> 0" by simp
  from slider_walk_result[OF nz, of b r c col "r + dr" "c + dc" acc]
  obtain ms1 where ms1: "slider_walk b r c col dr dc (r + dr) (c + dc) acc = Some (acc @ ms1)"
      "\<forall>m\<in>set ms1. lands_ok b col r c m \<and> promotion m = None" by blast
  from Cons.IH[of "acc @ ms1"] Cons.prems
  obtain ms2 where ms2: "slider_dirs b r c col ds (acc @ ms1) = Some ((acc @ ms1) @ ms2)"
      "\<forall>m\<in>set ms2. lands_ok b col r c m \<and> promotion m = None" by auto
  show ?case
    using ms1 ms2 by (intro exI[of _ "ms1 @ ms2"]) (auto simp: d)
qed

lemma slider_moves_result:
  assumes "\<forall>(dr, dc)\<in>set ds. dr \<noteq> 0 \<or> dc \<noteq> 0"
  shows "\<exists>ms. slider_moves b r c col ds = Some ms \<and>
               (\<forall>m\<in>set ms. lands_ok b col r c m \<and> promotion m = None)"
  using slider_dirs_result[OF assms, of b r c col "[]"] by (simp add: slider_moves_def)

lemma knight_moves_ok:
  "m \<in> set (knight_moves b r c col) \<Longrightarrow> lands_ok b col r c m \<and> promotion m = None"
  by (auto simp: knight_moves_def lands_ok_def Let_def
           split: if_splits option.splits)

lemma concat2_memD:
  "m \<in> set (concat (map (\<lambda>x. concat (map (F x) ys)) xs)) \<Longrightarrow> \<exists>x y. m \<in> set (F x y)"
  by auto

lemma king_moves_ok:
  assumes "m \<in> set (king_moves b r c col)"
  shows "lands_ok b col r c m \<and> promotion m = None"
proof -
  from assms[unfolded king_moves_def, THEN concat2_memD]
  obtain dr dc where "m \<in> set (if dr = 0 \<and> dc = 0 then []
      else let nr = r + dr; nc = c + dc in
        if \<not> in_bounds nr nc then []
        else (case get b nr nc of
                None \<Rightarrow> [\<lparr>start = (r, c), end_sq = (nr, nc), promotion = None\<rparr>]
              | Some target \<Rightarrow>
                  if color target \<noteq> col
                  then [\<lparr>start = (r, c), end_sq = (nr, nc), promotion = None\<rparr>] else []))"
    by blast
  then show ?thesis
    by (auto simp: lands_ok_def Let_def split: if_splits option.splits)
qed

lemma maybe_promote_simps:
  "start (maybe_promote m col d) = start m"
  "end_sq (maybe_promote m col d) = end_sq m"
  "promotion (maybe_promote m col d) =
     (if (col = White \<and> d = 0) \<or> (col = Black \<and> d = 7) then Some Queen else promotion m)"
  by (simp_all add: maybe_promote_def)

lemma concat_memD: "m \<in> set (concat (map F xs)) \<Longrightarrow> \<exists>x. m \<in> set (F x)"
  by auto

lemma pawn_moves_cases:
  assumes "m \<in> set (pawn_moves b r c col)"
  defines "dir \<equiv> (if col = White then - 1 else 1 :: int)"
  shows "(in_bounds (r + dir) c \<and> get b (r + dir) c = None \<and>
            m = maybe_promote \<lparr>start = (r, c), end_sq = (r + dir, c), promotion = None\<rparr> col (r + dir)) \<or>
         (in_bounds (r + dir) c \<and> r = (if col = White then 6 else 1) \<and> get b (r + 2 * dir) c = None \<and>
            m = \<lparr>start = (r, c), end_sq = (r + 2 * dir, c), promotion = None\<rparr>) \<or>
         (\<exists>dc target. in_bounds (r + dir) (c + dc) \<and> get b (r + dir) (c + dc) = Some target \<and>
            color target \<noteq> col \<and>
            m = maybe_promote \<lparr>start = (r, c), end_sq = (r + dir, c + dc), promotion = None\<rparr> col (r + dir))"
proof -
  from assms(1)[unfolded pawn_moves_def Let_def set_append Un_iff, folded dir_def]
  show ?thesis
  proof (elim disjE)
    assume "m \<in> set (if in_bounds (r + dir) c \<and> get b (r + dir) c = None
       then maybe_promote \<lparr>start = (r, c), end_sq = (r + dir, c), promotion = None\<rparr> col (r + dir) #
            (if r = (if col = White then 6 else 1) \<and> get b (r + 2 * dir) c = None
             then [\<lparr>start = (r, c), end_sq = (r + 2 * dir, c), promotion = None\<rparr>] else [])
       else [])"
    then show ?thesis by (auto split: if_splits)
  next
    assume "m \<in> set (concat (map (\<lambda>dc. if in_bounds (r + dir) (c + dc)
                        then case get b (r + dir) (c + dc) of None \<Rightarrow> []
                             | Some target \<Rightarrow>
                                 if color target \<noteq> col
                                 then [maybe_promote
  \<lparr>start = (r, c), end_sq = (r + dir, c + dc), promotion = None\<rparr> col (r + dir)]
                                 else []
                        else []) [- 1, 1]))"
    from concat_memD[OF this] obtain dc where
      dc: "m \<in> set (if in_bounds (r + dir) (c + dc)
                        then case get b (r + dir) (c + dc) of None \<Rightarrow> []
                             | Some target \<Rightarrow>
                                 if color target \<noteq> col
                                 then [maybe_promote
  \<lparr>start = (r, c), end_sq = (r + dir, c + dc), promotion = None\<rparr> col (r + dir)]
                                 else []
                        else [])" ..
    show ?thesis
    proof (cases "get b (r + dir) (c + dc)")
      case None
      with dc show ?thesis by (cases "in_bounds (r + dir) (c + dc)") simp_all
    next
      case (Some target)
      with dc have "in_bounds (r + dir) (c + dc)" "color target \<noteq> col"
        "m = maybe_promote \<lparr>start = (r, c), end_sq = (r + dir, c + dc), promotion = None\<rparr> col (r + dir)"
        by (cases "in_bounds (r + dir) (c + dc)"; cases "color target = col"; simp)+
      with Some show ?thesis by blast
    qed
  qed
qed

lemma pawn_moves_ok:
  assumes "m \<in> set (pawn_moves b r c col)"
  shows "lands_ok b col r c m \<and>
         promotion m = (if fst (end_sq m) = (if col = White then 0 else 7) then Some Queen else None)"
proof -
  define dir :: int where "dir = (if col = White then - 1 else 1)"
  have dbl: "in_bounds (r + 2 * dir) c \<and> r + 2 * dir \<noteq> (if col = White then 0 else 7)"
    if "in_bounds (r + dir) c" "r = (if col = White then 6 else 1)"
    using that by (auto simp: in_bounds_def dir_def split: if_splits)
  from pawn_moves_cases[OF assms, folded dir_def] show ?thesis
    by (cases col; elim disjE exE conjE)
       (use dbl in \<open>auto simp: lands_ok_def maybe_promote_simps dir_def split: if_splits\<close>)
qed

lemma dirs_nonzero:
  "\<forall>(dr, dc)\<in>set diagonals. dr \<noteq> 0 \<or> dc \<noteq> 0"
  "\<forall>(dr, dc)\<in>set orthogonals. dr \<noteq> 0 \<or> dc \<noteq> 0"
  "\<forall>(dr, dc)\<in>set (diagonals @ orthogonals). dr \<noteq> 0 \<or> dc \<noteq> 0"
  by (simp_all add: diagonals_def orthogonals_def)

lemma piece_moves_result:
  "\<exists>ms. piece_moves b r c p = Some ms \<and> (\<forall>m\<in>set ms. generated_by b (color p) m r c p)"
proof (cases "kind p")
  case King
  then show ?thesis by (simp add: piece_moves_def king_moves_ok generated_by_def)
next
  case Queen
  then show ?thesis
    using slider_moves_result[OF dirs_nonzero(3), of b r c "color p"]
    by (simp add: piece_moves_def generated_by_def)
next
  case Rook
  then show ?thesis
    using slider_moves_result[OF dirs_nonzero(2), of b r c "color p"]
    by (simp add: piece_moves_def generated_by_def)
next
  case Bishop
  then show ?thesis
    using slider_moves_result[OF dirs_nonzero(1), of b r c "color p"]
    by (simp add: piece_moves_def generated_by_def)
next
  case Knight
  then show ?thesis by (simp add: piece_moves_def knight_moves_ok generated_by_def)
next
  case Pawn
  then show ?thesis by (simp add: piece_moves_def pawn_moves_ok generated_by_def)
qed

lemma generate_loop_result:
  "\<exists>ms. generate_loop b col ps acc = Some (acc @ ms) \<and>
        (\<forall>m\<in>set ms. \<exists>x\<in>set ps. generated_by b col m (fst x) (fst (snd x)) (snd (snd x)))"
proof (induction ps arbitrary: acc)
  case Nil
  then show ?case by simp
next
  case (Cons x ps)
  obtain r c p where x: "x = (r, c, p)" by (cases x)
  show ?case
  proof (cases "color p = col")
    case False
    from Cons.IH[of acc] obtain ms where
      "generate_loop b col ps acc = Some (acc @ ms)"
      "\<forall>m\<in>set ms. \<exists>x\<in>set ps. generated_by b col m (fst x) (fst (snd x)) (snd (snd x))"
      by blast
    with False show ?thesis by (intro exI[of _ ms]) (simp add: x)
  next
    case True
    from piece_moves_result[of b r c p] True obtain ms1 where ms1:
      "piece_moves b r c p = Some ms1" "\<forall>m\<in>set ms1. generated_by b col m r c p" by auto
    from Cons.IH[of "acc @ ms1"] obtain ms2 where ms2:
      "generate_loop b col ps (acc @ ms1) = Some ((acc @ ms1) @ ms2)"
      "\<forall>m\<in>set ms2. \<exists>x\<in>set ps. generated_by b col m (fst x) (fst (snd x)) (snd (snd x))"
      by blast
    have "generate_loop b col (x # ps) acc = Some (acc @ (ms1 @ ms2))"
      using True ms1(1) ms2(1) by (simp add: x)
    moreover have "\<forall>m\<in>set (ms1 @ ms2).
        \<exists>y\<in>set (x # ps). generated_by b col m (fst y) (fst (snd y)) (snd (snd y))"
      using ms1(2) ms2(2) by (auto simp: x)
    ultimately show ?thesis by blast
  qed
qed

lemma generate_moves_result:
  "\<exists>ms. generate_moves b col = Some ms \<and>
        (\<forall>m\<in>set ms. \<exists>r c p. in_bounds r c \<and> get b r c = Some p \<and> generated_by b col m r c p)"
proof -
  from generate_loop_result[of b col "all_pieces b" "[]"] obtain ms where ms:
    "generate_moves b col = Some ms"
    "\<forall>m\<in>set ms. \<exists>x\<in>set (all_pieces b). generated_by b col m (fst x) (fst (snd x)) (snd (snd x))"
    by (auto simp: generate_moves_def)
  have "\<exists>r c p. in_bounds r c \<and> get b r c = Some p \<and> generated_by b col m r c p"
    if "m \<in> set ms" for m
  proof -
    from ms(2) that obtain x where x: "x \<in> set (all_pieces b)"
      "generated_by b col m (fst x) (fst (snd x)) (snd (snd x))" by blast
    obtain r c p where "x = (r, c, p)" by (cases x)
    with x show ?thesis using all_pieces_iff[of r c p b] by auto
  qed
  with ms(1) show ?thesis by blast
qed

lemma lands_okD:
  assumes "lands_ok b col r c m"
  shows "start m = (r, c)" "in_bounds (fst (end_sq m)) (snd (end_sq m))"
    "get b (fst (end_sq m)) (snd (end_sq m)) = None \<or>
     (\<exists>q. get b (fst (end_sq m)) (snd (end_sq m)) = Some q \<and> color q \<noteq> col)"
  using assms by (auto simp: lands_ok_def split: option.splits)

section \<open>C1: generated moves are pseudo-legal\<close>

text \<open>
  C1. On every board of eight rows of eight squares, and for every colour \<open>c\<close>,
  \<^verbatim>\<open>generate_moves\<close> returns, and every move of the list starts and ends inside
  the board, starts on a square holding a piece of colour \<open>c\<close>, and ends on a square
  that is empty or holds a piece of the other colour.
\<close>

theorem generate_moves_pseudo_legal:
  assumes "wf_board p"
  shows "\<exists>ms. generate_moves p c = Some ms \<and>
    (\<forall>m\<in>set ms.
       in_bounds (fst (start m)) (snd (start m)) \<and>
       in_bounds (fst (end_sq m)) (snd (end_sq m)) \<and>
       (\<exists>q. get p (fst (start m)) (snd (start m)) = Some q \<and> color q = c) \<and>
       (get p (fst (end_sq m)) (snd (end_sq m)) = None \<or>
        (\<exists>q. get p (fst (end_sq m)) (snd (end_sq m)) = Some q \<and> color q \<noteq> c)))"
proof -
  from generate_moves_result[of p c] obtain ms where ms: "generate_moves p c = Some ms"
    "\<forall>m\<in>set ms. \<exists>r k q. in_bounds r k \<and> get p r k = Some q \<and> generated_by p c m r k q"
    by blast
  have "in_bounds (fst (start m)) (snd (start m)) \<and>
       in_bounds (fst (end_sq m)) (snd (end_sq m)) \<and>
       (\<exists>q. get p (fst (start m)) (snd (start m)) = Some q \<and> color q = c) \<and>
       (get p (fst (end_sq m)) (snd (end_sq m)) = None \<or>
        (\<exists>q. get p (fst (end_sq m)) (snd (end_sq m)) = Some q \<and> color q \<noteq> c))"
    if "m \<in> set ms" for m
  proof -
    from ms(2) that obtain r k q where q: "in_bounds r k" "get p r k = Some q"
      "color q = c" "lands_ok p c r k m"
      by (auto simp: generated_by_def)
    from lands_okD[OF q(4)] q(1-3) show ?thesis by simp
  qed
  with ms(1) show ?thesis by blast
qed

theorem generate_moves_pseudo_legal_witness:
  "wf_board initial_board \<and>
   \<lparr>start = (6, 0), end_sq = (5, 0), promotion = None\<rparr>
     \<in> set (the (generate_moves initial_board White)) \<and>
   in_bounds 6 0 \<and> in_bounds 5 0 \<and>
   (\<exists>q. get initial_board 6 0 = Some q \<and> color q = White) \<and>
   (get initial_board 5 0 = None \<or> (\<exists>q. get initial_board 5 0 = Some q \<and> color q \<noteq> White))"
proof -
  let ?m = "\<lparr>start = (6, 0), end_sq = (5, 0), promotion = None\<rparr>"
  have mem: "?m \<in> set (the (generate_moves initial_board White))" by code_simp
  from generate_moves_pseudo_legal[OF wf_initial_board, of White] mem
  have "in_bounds (fst (start ?m)) (snd (start ?m)) \<and>
       in_bounds (fst (end_sq ?m)) (snd (end_sq ?m)) \<and>
       (\<exists>q. get initial_board (fst (start ?m)) (snd (start ?m)) = Some q \<and> color q = White) \<and>
       (get initial_board (fst (end_sq ?m)) (snd (end_sq ?m)) = None \<or>
        (\<exists>q. get initial_board (fst (end_sq ?m)) (snd (end_sq ?m)) = Some q \<and> color q \<noteq> White))"
    by fastforce
  then show ?thesis using wf_initial_board mem by simp
qed

section \<open>C10: which moves carry a promotion\<close>

text \<open>
  C10. A move of \<^verbatim>\<open>generate_moves\<close> carries either no promotion or the
  promotion to a queen, and it carries one exactly when the piece on its start square is
  a pawn (of the moving colour) and the move ends on row 0 for White, on row 7 for Black.
  Double steps end on rows 4 and 3, and the other kinds are no pawns, so neither carries
  a promotion.
\<close>

theorem promotion_iff_pawn_reaches_last_row:
  assumes "wf_board b"
  shows "\<exists>ms. generate_moves b col = Some ms \<and>
    (\<forall>m\<in>set ms.
       (promotion m = None \<or> promotion m = Some Queen) \<and>
       (promotion m \<noteq> None \<longleftrightarrow>
          (\<exists>p. get b (fst (start m)) (snd (start m)) = Some p \<and> kind p = Pawn \<and> color p = col \<and>
               fst (end_sq m) = (if col = White then 0 else 7))))"
proof -
  from generate_moves_result[of b col] obtain ms where ms: "generate_moves b col = Some ms"
    "\<forall>m\<in>set ms. \<exists>r k q. in_bounds r k \<and> get b r k = Some q \<and> generated_by b col m r k q"
    by blast
  have "(promotion m = None \<or> promotion m = Some Queen) \<and>
       (promotion m \<noteq> None \<longleftrightarrow>
          (\<exists>p. get b (fst (start m)) (snd (start m)) = Some p \<and> kind p = Pawn \<and> color p = col \<and>
               fst (end_sq m) = (if col = White then 0 else 7)))"
    if "m \<in> set ms" for m
  proof -
    from ms(2) that obtain r k q where q: "get b r k = Some q" "color q = col"
      "lands_ok b col r k m"
      "promotion m = (if kind q = Pawn \<and> fst (end_sq m) = (if col = White then 0 else 7)
                      then Some Queen else None)"
      by (auto simp: generated_by_def)
    from lands_okD(1)[OF q(3)] have "get b (fst (start m)) (snd (start m)) = Some q"
      using q(1) by simp
    with q(2,4) show ?thesis by auto
  qed
  with ms(1) show ?thesis by blast
qed

theorem promotion_iff_pawn_reaches_last_row_witness:
  "wf_board promotion_board \<and>
   generate_moves promotion_board White =
     Some [\<lparr>start = (1, 0), end_sq = (0, 0), promotion = Some Queen\<rparr>,
           \<lparr>start = (1, 0), end_sq = (0, 1), promotion = Some Queen\<rparr>,
           \<lparr>start = (7, 4), end_sq = (6, 3), promotion = None\<rparr>,
           \<lparr>start = (7, 4), end_sq = (6, 4), promotion = None\<rparr>,
           \<lparr>start = (7, 4), end_sq = (6, 5), promotion = None\<rparr>,
           \<lparr>start = (7, 4), end_sq = (7, 3), promotion = None\<rparr>,
           \<lparr>start = (7, 4), end_sq = (7, 5), promotion = None\<rparr>] \<and>
   (\<exists>p. get promotion_board 1 0 = Some p \<and> kind p = Pawn \<and> color p = White)"
proof -
  have wf: "wf_board promotion_board" by code_simp
  have gm: "generate_moves promotion_board White =
     Some [\<lparr>start = (1, 0), end_sq = (0, 0), promotion = Some Queen\<rparr>,
           \<lparr>start = (1, 0), end_sq = (0, 1), promotion = Some Queen\<rparr>,
           \<lparr>start = (7, 4), end_sq = (6, 3), promotion = None\<rparr>,
           \<lparr>start = (7, 4), end_sq = (6, 4), promotion = None\<rparr>,
           \<lparr>start = (7, 4), end_sq = (6, 5), promotion = None\<rparr>,
           \<lparr>start = (7, 4), end_sq = (7, 3), promotion = None\<rparr>,
           \<lparr>start = (7, 4), end_sq = (7, 5), promotion = None\<rparr>]" by code_simp
  from promotion_iff_pawn_reaches_last_row[OF wf, of White] gm
  show ?thesis using wf by auto
qed

section \<open>C7: queries outside the board\<close>

text \<open>
  C7 fails on the code. The pawn and knight branches of \<^verbatim>\<open>is_square_attacked\<close>
  check \<^verbatim>\<open>in_bounds\<close> before they return \<^verbatim>\<open>True\<close> and the ray loop never
  leaves the board, but the king branch compares offsets only: in the opening position
  the black king on (0, 4) makes the square (-1, 4), which lies outside the board,
  attacked by Black.
\<close>

theorem king_attacks_off_board_square:
  "\<not> in_bounds (- 1) 4 \<and> get initial_board (- 1) 4 = None \<and>
   is_square_attacked initial_board (- 1) 4 Black = Some True"
  by code_simp

section \<open>The attack oracle\<close>

lemma attack_walk_total:
  assumes "dr \<noteq> 0 \<or> dc \<noteq> 0"
  shows "\<exists>v. attack_walk b r c dr dc nr nc = Some v"
proof (induction "steps_left dr dc nr nc" arbitrary: nr nc rule: less_induct)
  case less
  show ?case
  proof (cases "in_bounds nr nc \<and> \<not> (nr = r \<and> nc = c) \<and> get b nr nc = None")
    case True
    then have ib: "in_bounds nr nc" by simp
    from less[OF steps_left_decreases[OF ib assms]] True show ?thesis
      by (subst attack_walk.simps) auto
  next
    case False
    then show ?thesis by (subst attack_walk.simps) auto
  qed
qed

lemma attack_dirs_char:
  assumes "\<forall>(dr, dc)\<in>set ds. dr \<noteq> 0 \<or> dc \<noteq> 0"
  shows "attack_dirs b r c rr cc ds =
    Some (\<exists>d\<in>set ds. attack_walk b r c (fst d) (snd d) (rr + fst d) (cc + snd d) = Some True)"
  using assms
proof (induction ds)
  case Nil
  then show ?case by simp
next
  case (Cons d ds)
  obtain dr dc where d: "d = (dr, dc)" by (cases d)
  with Cons.prems have nz: "dr \<noteq> 0 \<or> dc \<noteq> 0" by simp
  from attack_walk_total[OF nz, of b r c "rr + dr" "cc + dc"]
  obtain v where v: "attack_walk b r c dr dc (rr + dr) (cc + dc) = Some v" by blast
  from Cons have IH: "attack_dirs b r c rr cc ds =
    Some (\<exists>d\<in>set ds. attack_walk b r c (fst d) (snd d) (rr + fst d) (cc + snd d) = Some True)"
    by simp
  show ?case using v IH by (cases v) (simp_all add: d)
qed

lemma attack_directions_nonzero: "\<forall>(dr, dc)\<in>set (attack_directions k). dr \<noteq> 0 \<or> dc \<noteq> 0"
  by (auto simp: attack_directions_def diagonals_def orthogonals_def)

lemma piece_attacks_total: "\<exists>v. piece_attacks b r c by_color rr cc p = Some v"
  by (cases "kind p")
     (simp_all add: piece_attacks_def attack_dirs_char[OF attack_directions_nonzero])

lemma attack_loop_char:
  "attack_loop b r c by_color ps =
    Some (\<exists>x\<in>set ps. color (snd (snd x)) = by_color \<and>
            piece_attacks b r c by_color (fst x) (fst (snd x)) (snd (snd x)) = Some True)"
proof (induction ps)
  case Nil
  then show ?case by simp
next
  case (Cons x ps)
  obtain rr cc p where x: "x = (rr, cc, p)" by (cases x)
  from piece_attacks_total[of b r c by_color rr cc p]
  obtain v where v: "piece_attacks b r c by_color rr cc p = Some v" by blast
  show ?case using v Cons.IH by (cases v) (auto simp: x)
qed

lemma is_square_attacked_char:
  "is_square_attacked b r c by_color =
    Some (\<exists>rr cc p. in_bounds rr cc \<and> get b rr cc = Some p \<and> color p = by_color \<and>
            piece_attacks b r c by_color rr cc p = Some True)"
proof -
  have "(\<exists>x\<in>set (all_pieces b). color (snd (snd x)) = by_color \<and>
            piece_attacks b r c by_color (fst x) (fst (snd x)) (snd (snd x)) = Some True) \<longleftrightarrow>
        (\<exists>rr cc p. in_bounds rr cc \<and> get b rr cc = Some p \<and> color p = by_color \<and>
            piece_attacks b r c by_color rr cc p = Some True)" (is "?L \<longleftrightarrow> ?R")
  proof
    assume ?L
    then obtain x where x: "x \<in> set (all_pieces b)" "color (snd (snd x)) = by_color"
      "piece_attacks b r c by_color (fst x) (fst (snd x)) (snd (snd x)) = Some True" by blast
    obtain rr cc p where "x = (rr, cc, p)" by (cases x)
    with x show ?R using all_pieces_iff[of rr cc p b] by auto
  next
    assume ?R
    then obtain rr cc p where "in_bounds rr cc" "get b rr cc = Some p" "color p = by_color"
            "piece_attacks b r c by_color rr cc p = Some True" by blast
    then show ?L using all_pieces_iff[of rr cc p b] by force
  qed
  then show ?thesis by (simp add: is_square_attacked_def attack_loop_char)
qed

lemma unit_dir_cases:
  assumes "dr \<in> {- 1, 0, 1}" "dc \<in> {- 1, 0, 1}" "dr \<noteq> 0 \<or> dc \<noteq> (0::int)"
  obtains "dr = - 1" | "dr = 1" | "dr = 0" "dc = - 1" | "dr = 0" "dc = 1"
  using assms by auto

lemma ray_convex:
  assumes "dr \<in> {- 1, 0, 1}" "dc \<in> {- 1, 0, 1::int}"
    and "in_bounds rr cc" "in_bounds (rr + k * dr) (cc + k * dc)" "0 \<le> i" "i \<le> k"
  shows "in_bounds (rr + i * dr) (cc + i * dc)"
  using assms by (auto simp: in_bounds_def)

lemma ray_short:
  assumes "dr \<in> {- 1, 0, 1}" "dc \<in> {- 1, 0, 1::int}" "dr \<noteq> 0 \<or> dc \<noteq> 0"
    and "in_bounds rr cc" "in_bounds (rr + i * dr) (cc + i * dc)" "0 \<le> i"
  shows "i \<le> 7"
  using assms by (auto simp: in_bounds_def)

lemma attack_walk_ray:
  assumes dr: "dr \<in> {- 1, 0, 1}" and dc: "dc \<in> {- 1, 0, 1}" and nz: "dr \<noteq> 0 \<or> dc \<noteq> 0"
    and src: "in_bounds rr cc" and tgt: "in_bounds r c" and i: "1 \<le> i"
  shows "attack_walk b r c dr dc (rr + i * dr) (cc + i * dc) =
    Some (\<exists>k. i \<le> k \<and> k \<le> 7 \<and> r = rr + k * dr \<and> c = cc + k * dc \<and>
            (\<forall>j. i \<le> j \<and> j < k \<longrightarrow> get b (rr + j * dr) (cc + j * dc) = None))"
    (is "_ = Some (?R i)")
  using i
proof (induction "nat (8 - i)" arbitrary: i rule: less_induct)
  case less
  let ?nr = "rr + i * dr" and ?nc = "cc + i * dc"
  show ?case
  proof (cases "in_bounds ?nr ?nc")
    case False
    have "\<not> ?R i"
    proof
      assume "?R i"
      then obtain k where k: "i \<le> k" "r = rr + k * dr" "c = cc + k * dc" by blast
      from ray_convex[OF dr dc src tgt[unfolded k(2,3)] _ k(1)] less.prems False
      show False by simp
    qed
    with False show ?thesis by (subst attack_walk.simps) simp
  next
    case ib: True
    from ray_short[OF dr dc nz src ib] less.prems have i7: "i \<le> 7" by simp
    show ?thesis
    proof (cases "?nr = r \<and> ?nc = c")
      case True
      then have "?R i" using i7 by (intro exI[of _ i]) auto
      with True ib show ?thesis by (subst attack_walk.simps) simp
    next
      case ne: False
      have step: "?R i \<longleftrightarrow> get b ?nr ?nc = None \<and> ?R (i + 1)"
      proof
        assume "?R i"
        then obtain k where k: "i \<le> k" "k \<le> 7" "r = rr + k * dr" "c = cc + k * dc"
          "\<forall>j. i \<le> j \<and> j < k \<longrightarrow> get b (rr + j * dr) (cc + j * dc) = None" by blast
        from ne k(3,4) have "k \<noteq> i" by auto
        with k(1) have ik: "i + 1 \<le> k" by simp
        then have "get b ?nr ?nc = None" using k(5) by simp
        moreover have "?R (i + 1)" using ik k by (intro exI[of _ k]) simp
        ultimately show "get b ?nr ?nc = None \<and> ?R (i + 1)" ..
      next
        assume a: "get b ?nr ?nc = None \<and> ?R (i + 1)"
        then obtain k where k: "i + 1 \<le> k" "k \<le> 7" "r = rr + k * dr" "c = cc + k * dc"
          "\<forall>j. i + 1 \<le> j \<and> j < k \<longrightarrow> get b (rr + j * dr) (cc + j * dc) = None" by blast
        have "get b (rr + j * dr) (cc + j * dc) = None" if "i \<le> j" "j < k" for j
        proof (cases "j = i")
          case True
          with a show ?thesis by simp
        next
          case False
          with that k(5) show ?thesis by simp
        qed
        with k show "?R i" by (intro exI[of _ k]) simp
      qed
      show ?thesis
      proof (cases "get b ?nr ?nc")
        case (Some q)
        with step have "\<not> ?R i" by simp
        with Some ib ne show ?thesis by (subst attack_walk.simps) auto
      next
        case None
        have "nat (8 - (i + 1)) < nat (8 - i)" using i7 by simp
        from less.hyps[OF this] less.prems
        have IH: "attack_walk b r c dr dc (rr + (i + 1) * dr) (cc + (i + 1) * dc) = Some (?R (i + 1))"
          by simp
        have pos: "?nr + dr = rr + (i + 1) * dr" "?nc + dc = cc + (i + 1) * dc"
          by (simp_all add: algebra_simps)
        have "attack_walk b r c dr dc ?nr ?nc = attack_walk b r c dr dc (?nr + dr) (?nc + dc)"
          using ib ne None by (subst attack_walk.simps) auto
        also have "\<dots> = Some (?R (i + 1))" unfolding pos by (rule IH)
        finally show ?thesis using step None by simp
      qed
    qed
  qed
qed

lemma attack_walk_ray_reaches:
  assumes "dr \<in> {- 1, 0, 1}" "dc \<in> {- 1, 0, 1}" "dr \<noteq> 0 \<or> dc \<noteq> 0"
    and "in_bounds rr cc" "in_bounds r c"
  shows "attack_walk b r c dr dc (rr + dr) (cc + dc) = Some (ray_reaches b rr cc (dr, dc) r c)"
proof -
  have "(\<exists>k. 1 \<le> k \<and> k \<le> 7 \<and> r = rr + k * dr \<and> c = cc + k * dc \<and>
            (\<forall>j. 1 \<le> j \<and> j < k \<longrightarrow> get b (rr + j * dr) (cc + j * dc) = None)) \<longleftrightarrow>
        ray_reaches b rr cc (dr, dc) r c"
    by (auto simp: ray_reaches_def)
  with attack_walk_ray[OF assms, of 1 b] show ?thesis by simp
qed

section \<open>C8 and C9: sliding and pawn attacks\<close>

lemma get_Some_in_bounds: "get b r c = Some p \<Longrightarrow> in_bounds r c"
  by (auto simp: get_def split: if_splits)

lemma attack_directions_unit:
  "d \<in> set (attack_directions k) \<Longrightarrow>
     fst d \<in> {- 1, 0, 1} \<and> snd d \<in> {- 1, 0, 1} \<and> (fst d \<noteq> 0 \<or> snd d \<noteq> 0)"
  by (auto simp: attack_directions_def diagonals_def orthogonals_def split: if_splits)

lemma slider_piece_attacks:
  assumes "kind p = Bishop \<or> kind p = Rook \<or> kind p = Queen" "in_bounds rr cc" "in_bounds r c"
  shows "piece_attacks b r c by_color rr cc p =
    Some (\<exists>d\<in>set (attack_directions (kind p)). ray_reaches b rr cc d r c)"
proof -
  have pa: "piece_attacks b r c by_color rr cc p =
      attack_dirs b r c rr cc (attack_directions (kind p))"
    using assms(1) by (auto simp: piece_attacks_def)
  have "attack_walk b r c (fst d) (snd d) (rr + fst d) (cc + snd d) =
        Some (ray_reaches b rr cc d r c)" if "d \<in> set (attack_directions (kind p))" for d
    using attack_directions_unit[OF that] attack_walk_ray_reaches[OF _ _ _ assms(2,3), of "fst d" "snd d" b]
    by simp
  then show ?thesis
    unfolding pa attack_dirs_char[OF attack_directions_nonzero] by auto
qed

lemma pawn_piece_attacks:
  assumes "kind p = Pawn" "in_bounds r c"
  shows "piece_attacks b r c by_color rr cc p =
    Some (r = rr + (if by_color = White then - 1 else 1) \<and> (c = cc - 1 \<or> c = cc + 1))"
  using assms by (auto simp: piece_attacks_def Let_def)

lemma sole_piece_attacked:
  assumes "sole_piece b by_color rr cc" "get b rr cc = Some p" "color p = by_color"
  shows "is_square_attacked b r c by_color =
    Some (piece_attacks b r c by_color rr cc p = Some True)"
proof -
  have only: "r' = rr \<and> c' = cc \<and> q = p"
    if "in_bounds r' c'" "get b r' c' = Some q" "color q = by_color" for r' c' q
  proof -
    from that have "(r', c', q) \<in> set (all_pieces b)" by (simp add: all_pieces_iff)
    with assms(1) that(3) have "r' = rr \<and> c' = cc"
      by (auto simp: sole_piece_def list_all_iff)
    with that(2) assms(2) show ?thesis by simp
  qed
  have "(\<exists>r' c' q. in_bounds r' c' \<and> get b r' c' = Some q \<and> color q = by_color \<and>
            piece_attacks b r c by_color r' c' q = Some True) \<longleftrightarrow>
        piece_attacks b r c by_color rr cc p = Some True" (is "?L \<longleftrightarrow> ?R")
  proof
    assume ?L
    then obtain r' c' q where q: "in_bounds r' c'" "get b r' c' = Some q" "color q = by_color"
      "piece_attacks b r c by_color r' c' q = Some True" by blast
    from only[OF q(1-3)] q(4) show ?R by simp
  next
    assume ?R
    with assms(2,3) get_Some_in_bounds[OF assms(2)] show ?L by blast
  qed
  then show ?thesis by (simp only: is_square_attacked_char)
qed

lemma attacked_if_piece_attacks:
  assumes "get b rr cc = Some p" "color p = by_color"
    "piece_attacks b r c by_color rr cc p = Some True"
  shows "is_square_attacked b r c by_color = Some True"
proof -
  from assms get_Some_in_bounds[OF assms(1)]
  have "\<exists>rr cc p. in_bounds rr cc \<and> get b rr cc = Some p \<and> color p = by_color \<and>
            piece_attacks b r c by_color rr cc p = Some True" by blast
  then show ?thesis by (simp only: is_square_attacked_char)
qed

lemma attack_directions_rays:
  "kind p = Bishop \<or> kind p = Rook \<or> kind p = Queen \<Longrightarrow>
     set (attack_directions (kind p)) = slider_rays (kind p)"
  by (auto simp: attack_directions_def diagonals_def orthogonals_def)

text \<open>
  C8. Let a bishop, rook or queen \<open>p\<close> of colour \<open>by_color\<close> stand on \<open>(rr, cc)\<close> of a
  well-formed board and let \<open>(r, c)\<close> be a square of the board. The directions of \<open>p\<close>
  are the four diagonals \<open>(\<plusminus>1, \<plusminus>1)\<close> for a bishop, the four directions \<open>(\<plusminus>1, 0)\<close>,
  \<open>(0, \<plusminus>1)\<close> of the column and the row for a rook, and all eight for a queen. The part
  of \<^verbatim>\<open>is_square_attacked\<close> run for \<open>p\<close> returns \<^verbatim>\<open>True\<close> exactly when, along
  one of these directions, \<open>(r, c)\<close> is reached at or before the first occupied square
  (the squares before it are empty, whatever stands on \<open>(r, c)\<close> itself and whatever the
  colour of a blocker). Hence reaching \<open>(r, c)\<close> makes \<^verbatim>\<open>is_square_attacked\<close> true,
  and when \<open>p\<close> is the only piece of its colour the answer is true exactly in that case.
\<close>

theorem slider_attack_exact:
  assumes "wf_board b" and "in_bounds r c" and "get b rr cc = Some p" and "color p = by_color"
    and "kind p = Bishop \<or> kind p = Rook \<or> kind p = Queen"
  shows "slider_rays (kind p) =
           (if kind p = Bishop then {(- 1, - 1), (- 1, 1), (1, - 1), (1, 1)}
            else if kind p = Rook then {(- 1, 0), (1, 0), (0, - 1), (0, 1)}
            else {(- 1, - 1), (- 1, 1), (1, - 1), (1, 1), (- 1, 0), (1, 0), (0, - 1), (0, 1)}) \<and>
         piece_attacks b r c by_color rr cc p =
           Some (\<exists>d\<in>slider_rays (kind p). ray_reaches b rr cc d r c) \<and>
         ((\<exists>d\<in>slider_rays (kind p). ray_reaches b rr cc d r c) \<longrightarrow>
            is_square_attacked b r c by_color = Some True) \<and>
         (sole_piece b by_color rr cc \<longrightarrow>
            is_square_attacked b r c by_color =
              Some (\<exists>d\<in>slider_rays (kind p). ray_reaches b rr cc d r c))"
proof -
  have rays: "slider_rays (kind p) =
           (if kind p = Bishop then {(- 1, - 1), (- 1, 1), (1, - 1), (1, 1)}
            else if kind p = Rook then {(- 1, 0), (1, 0), (0, - 1), (0, 1)}
            else {(- 1, - 1), (- 1, 1), (1, - 1), (1, 1), (- 1, 0), (1, 0), (0, - 1), (0, 1)})"
    using assms(5) by auto
  have pa: "piece_attacks b r c by_color rr cc p =
           Some (\<exists>d\<in>slider_rays (kind p). ray_reaches b rr cc d r c)"
    using slider_piece_attacks[OF assms(5) get_Some_in_bounds[OF assms(3)] assms(2),
        where b = b and by_color = by_color]
    unfolding attack_directions_rays[OF assms(5)] .
  have att: "(\<exists>d\<in>slider_rays (kind p). ray_reaches b rr cc d r c) \<longrightarrow>
            is_square_attacked b r c by_color = Some True"
    using pa attacked_if_piece_attacks[OF assms(3,4), where r = r and c = c] by simp
  have sole: "sole_piece b by_color rr cc \<longrightarrow>
            is_square_attacked b r c by_color =
              Some (\<exists>d\<in>slider_rays (kind p). ray_reaches b rr cc d r c)"
    using pa sole_piece_attacked[OF _ assms(3,4), where r = r and c = c] by simp
  from rays pa att sole show ?thesis by (intro conjI)
qed

text \<open>
  C9. Let a pawn \<open>p\<close> of colour \<open>by_color\<close> stand on \<open>(rr, cc)\<close> and let \<open>(r, c)\<close> be a
  square of the board. On every board, whatever it holds on \<open>(r, c)\<close>, the part of
  \<^verbatim>\<open>is_square_attacked\<close> run for \<open>p\<close> returns \<^verbatim>\<open>True\<close> exactly when \<open>(r, c)\<close>
  is one of the two diagonal squares in front of the pawn (row \<open>rr - 1\<close> for White,
  \<open>rr + 1\<close> for Black). Hence such a square is attacked, and when \<open>p\<close> is the only
  piece of its colour no other square is.
\<close>

theorem pawn_attack_exact:
  assumes "wf_board b" and "in_bounds r c" and "get b rr cc = Some p" and "color p = by_color"
    and "kind p = Pawn"
  shows "(\<forall>b'. piece_attacks b' r c by_color rr cc p =
           Some (r = rr + (if by_color = White then - 1 else 1) \<and> (c = cc - 1 \<or> c = cc + 1))) \<and>
         (r = rr + (if by_color = White then - 1 else 1) \<and> (c = cc - 1 \<or> c = cc + 1) \<longrightarrow>
            is_square_attacked b r c by_color = Some True) \<and>
         (sole_piece b by_color rr cc \<longrightarrow>
            is_square_attacked b r c by_color =
              Some (r = rr + (if by_color = White then - 1 else 1) \<and> (c = cc - 1 \<or> c = cc + 1)))"
proof -
  note pa = pawn_piece_attacks[OF assms(5,2), where by_color = by_color and rr = rr and cc = cc]
  show ?thesis
    using pa attacked_if_piece_attacks[OF assms(3,4), where r = r and c = c]
      sole_piece_attacked[OF _ assms(3,4), where r = r and c = c]
    by auto
qed

lemma ray_reaches_code [code]:
  "ray_reaches b rr cc d r c \<longleftrightarrow>
    list_ex (\<lambda>k. r = rr + k * fst d \<and> c = cc + k * snd d \<and>
               list_all (\<lambda>j. get b (rr + j * fst d) (cc + j * snd d) = None) [1..k - 1]) [1..7]"
proof -
  have "{1..<k} = set [1..k - 1]" for k :: int by auto
  then show ?thesis
    unfolding ray_reaches_def list_ex_iff list_all_iff by simp
qed

lemma wf_capture_board: "wf_board capture_board"
  by code_simp

lemma wf_bishop_board: "wf_board bishop_board"
  by code_simp

lemma wf_queen_board: "wf_board queen_board"
  by code_simp

theorem slider_attack_exact_witness:
  "wf_board capture_board \<and> wf_board bishop_board \<and> wf_board queen_board \<and>
   get capture_board 4 4 = Some \<lparr>color = White, kind = Rook\<rparr> \<and>
   sole_piece capture_board White 4 4 \<and>
   get capture_board 4 6 = Some \<lparr>color = Black, kind = Pawn\<rparr> \<and>
   is_square_attacked capture_board 4 6 White = Some True \<and>
   is_square_attacked capture_board 4 7 White = Some False \<and>
   is_square_attacked capture_board 3 5 White = Some False \<and>
   get bishop_board 4 4 = Some \<lparr>color = White, kind = Bishop\<rparr> \<and>
   sole_piece bishop_board White 4 4 \<and>
   get bishop_board 2 2 = Some \<lparr>color = Black, kind = Pawn\<rparr> \<and>
   is_square_attacked bishop_board 2 2 White = Some True \<and>
   is_square_attacked bishop_board 1 1 White = Some False \<and>
   is_square_attacked bishop_board 4 5 White = Some False \<and>
   is_square_attacked bishop_board 4 6 White = Some False \<and>
   get queen_board 4 4 = Some \<lparr>color = White, kind = Queen\<rparr> \<and>
   is_square_attacked queen_board 2 2 White = Some True \<and>
   is_square_attacked queen_board 4 6 White = Some True \<and>
   is_square_attacked queen_board 2 3 White = Some False"
proof -
  have ib: "in_bounds 4 6" "in_bounds 4 7" "in_bounds 3 5" "in_bounds 2 2" "in_bounds 1 1"
    "in_bounds 4 5" "in_bounds 2 3"
    by (simp_all add: in_bounds_def)
  have gr: "get capture_board 4 4 = Some \<lparr>color = White, kind = Rook\<rparr>"
    "get capture_board 4 6 = Some \<lparr>color = Black, kind = Pawn\<rparr>" by code_simp+
  have gb: "get bishop_board 4 4 = Some \<lparr>color = White, kind = Bishop\<rparr>"
    "get bishop_board 2 2 = Some \<lparr>color = Black, kind = Pawn\<rparr>" by code_simp+
  have gq: "get queen_board 4 4 = Some \<lparr>color = White, kind = Queen\<rparr>" by code_simp
  have sole: "sole_piece capture_board White 4 4" "sole_piece bishop_board White 4 4"
    "sole_piece queen_board White 4 4" by code_simp+
  have r46: "ray_reaches capture_board 4 4 (0, 1) 4 6" by code_simp
  have r47: "\<not> ray_reaches capture_board 4 4 (- 1, 0) 4 7"
    "\<not> ray_reaches capture_board 4 4 (1, 0) 4 7"
    "\<not> ray_reaches capture_board 4 4 (0, - 1) 4 7"
    "\<not> ray_reaches capture_board 4 4 (0, 1) 4 7" by code_simp+
  have r35: "\<not> ray_reaches capture_board 4 4 (- 1, 0) 3 5"
    "\<not> ray_reaches capture_board 4 4 (1, 0) 3 5"
    "\<not> ray_reaches capture_board 4 4 (0, - 1) 3 5"
    "\<not> ray_reaches capture_board 4 4 (0, 1) 3 5" by code_simp+
  have b22: "ray_reaches bishop_board 4 4 (- 1, - 1) 2 2" by code_simp
  have b11: "\<not> ray_reaches bishop_board 4 4 (- 1, - 1) 1 1"
    "\<not> ray_reaches bishop_board 4 4 (- 1, 1) 1 1"
    "\<not> ray_reaches bishop_board 4 4 (1, - 1) 1 1"
    "\<not> ray_reaches bishop_board 4 4 (1, 1) 1 1" by code_simp+
  have b45: "\<not> ray_reaches bishop_board 4 4 (- 1, - 1) 4 5"
    "\<not> ray_reaches bishop_board 4 4 (- 1, 1) 4 5"
    "\<not> ray_reaches bishop_board 4 4 (1, - 1) 4 5"
    "\<not> ray_reaches bishop_board 4 4 (1, 1) 4 5" by code_simp+
  have b46: "\<not> ray_reaches bishop_board 4 4 (- 1, - 1) 4 6"
    "\<not> ray_reaches bishop_board 4 4 (- 1, 1) 4 6"
    "\<not> ray_reaches bishop_board 4 4 (1, - 1) 4 6"
    "\<not> ray_reaches bishop_board 4 4 (1, 1) 4 6" by code_simp+
  have q22: "ray_reaches queen_board 4 4 (- 1, - 1) 2 2" by code_simp
  have q46: "ray_reaches queen_board 4 4 (0, 1) 4 6" by code_simp
  have q23: "\<not> ray_reaches queen_board 4 4 (- 1, - 1) 2 3"
    "\<not> ray_reaches queen_board 4 4 (- 1, 1) 2 3"
    "\<not> ray_reaches queen_board 4 4 (1, - 1) 2 3"
    "\<not> ray_reaches queen_board 4 4 (1, 1) 2 3"
    "\<not> ray_reaches queen_board 4 4 (- 1, 0) 2 3"
    "\<not> ray_reaches queen_board 4 4 (1, 0) 2 3"
    "\<not> ray_reaches queen_board 4 4 (0, - 1) 2 3"
    "\<not> ray_reaches queen_board 4 4 (0, 1) 2 3" by code_simp+
  from slider_attack_exact[OF wf_capture_board ib(1) gr(1), of White] r46
  have a46: "is_square_attacked capture_board 4 6 White = Some True" by simp
  from slider_attack_exact[OF wf_capture_board ib(2) gr(1), of White] r47 sole(1)
  have a47: "is_square_attacked capture_board 4 7 White = Some False" by simp
  from slider_attack_exact[OF wf_capture_board ib(3) gr(1), of White] r35 sole(1)
  have a35: "is_square_attacked capture_board 3 5 White = Some False" by simp
  from slider_attack_exact[OF wf_bishop_board ib(4) gb(1), of White] b22
  have c22: "is_square_attacked bishop_board 2 2 White = Some True" by simp
  from slider_attack_exact[OF wf_bishop_board ib(5) gb(1), of White] b11 sole(2)
  have c11: "is_square_attacked bishop_board 1 1 White = Some False" by simp
  from slider_attack_exact[OF wf_bishop_board ib(6) gb(1), of White] b45 sole(2)
  have c45: "is_square_attacked bishop_board 4 5 White = Some False" by simp
  from slider_attack_exact[OF wf_bishop_board ib(1) gb(1), of White] b46 sole(2)
  have c46: "is_square_attacked bishop_board 4 6 White = Some False" by simp
  from slider_attack_exact[OF wf_queen_board ib(4) gq, of White] q22
  have d22: "is_square_attacked queen_board 2 2 White = Some True" by simp
  from slider_attack_exact[OF wf_queen_board ib(1) gq, of White] q46
  have d46: "is_square_attacked queen_board 4 6 White = Some True" by simp
  from slider_attack_exact[OF wf_queen_board ib(7) gq, of White] q23 sole(3)
  have d23: "is_square_attacked queen_board 2 3 White = Some False" by simp
  from wf_capture_board wf_bishop_board wf_queen_board gr sole a46 a47 a35 gb c22 c11 c45 c46
    gq d22 d46 d23
  show ?thesis by (intro conjI)
qed

theorem pawn_attack_exact_witness:
  "wf_board initial_board \<and> in_bounds 5 1 \<and>
   get initial_board 6 0 = Some \<lparr>color = White, kind = Pawn\<rparr> \<and>
   get initial_board 5 1 = None \<and>
   is_square_attacked initial_board 5 1 White = Some True"
proof -
  have ib: "in_bounds 5 1" by (simp add: in_bounds_def)
  have g: "get initial_board 6 0 = Some \<lparr>color = White, kind = Pawn\<rparr>"
    "get initial_board 5 1 = None" by code_simp+
  from pawn_attack_exact[OF wf_initial_board ib g(1), of White]
  have "is_square_attacked initial_board 5 1 White = Some True" by simp
  then show ?thesis using wf_initial_board ib g by simp
qed

section \<open>The move chooser\<close>

lemma clone_id: "clone b = b"
proof -
  have "(\<lambda>p. case p of None \<Rightarrow> None | Some q \<Rightarrow> Some \<lparr>color = color q, kind = kind q\<rparr>) = id"
    by (auto simp: fun_eq_iff split: option.splits)
  then show ?thesis by (simp add: clone_def)
qed

lemma simulate_ok:
  assumes "wf_board b" "move_in_bounds mv"
  shows "\<exists>sim. simulate b mv = Inr sim \<and> wf_board sim"
proof -
  obtain sr sc er ec where se: "start mv = (sr, sc)" "end_sq mv = (er, ec)"
    by (cases "start mv"; cases "end_sq mv") auto
  then have mv: "mv = \<lparr>start = (sr, sc), end_sq = (er, ec), promotion = promotion mv\<rparr>" by simp
  from assms(2) se have ib: "in_bounds sr sc" "in_bounds er ec"
    by (simp_all add: move_in_bounds_def)
  let ?b1 = "b\<lparr>board := (board b)[nat sr := (board b ! nat sr)[nat sc := None]]\<rparr>"
  have wf1: "wf_board ?b1" using assms(1) ib(1) by (rule wf_board_update)
  have eq: "simulate b mv = Inr (?b1\<lparr>board := (board ?b1)[nat er := (board ?b1 ! nat er)
      [nat ec := (case (promotion mv, get b sr sc) of
                        (Some k, Some p) \<Rightarrow>
                          if kind p = Pawn then Some \<lparr>color = color p, kind = k\<rparr> else Some p
                      | (_, occ) \<Rightarrow> occ)]],
            to_move := (if to_move b = White then Black else White)\<rparr>)"
    unfolding simulate_def clone_id
    by (subst mv) (rule move_piece_in_bounds[OF assms(1) ib])
  have "wf_board (bb\<lparr>board := x, to_move := t\<rparr>) = wf_board (bb\<lparr>board := x\<rparr>)" for bb :: Board and x t
    by (simp add: wf_board_def)
  with wf_board_update[OF wf1 ib(2)] eq show ?thesis by simp
qed

lemma pick_char:
  fixes P :: "'a \<Rightarrow> bool" and g :: "'a \<Rightarrow> int"
  shows "(if \<exists>x\<in>set xs. P x
          then \<exists>i<length xs. P (xs ! i) \<and>
                 fold (pick_step P g) xs (None, NegInf) = (Some (xs ! i), Fin (g (xs ! i))) \<and>
                 (\<forall>j<length xs. P (xs ! j) \<longrightarrow> g (xs ! j) \<le> g (xs ! i)) \<and>
                 (\<forall>j<i. P (xs ! j) \<longrightarrow> g (xs ! j) < g (xs ! i))
          else fold (pick_step P g) xs (None, NegInf) = (None, NegInf))"
proof (induction xs rule: rev_induct)
  case Nil
  then show ?case by simp
next
  case (snoc x xs)
  show ?case
  proof (cases "\<exists>y\<in>set xs. P y")
    case False
    with snoc have f: "fold (pick_step P g) xs (None, NegInf) = (None, NegInf)" by simp
    show ?thesis
    proof (cases "P x")
      case True
      have "fold (pick_step P g) (xs @ [x]) (None, NegInf) = (Some x, Fin (g x))"
        using True f by (simp add: pick_step_def)
      moreover have "\<not> P ((xs @ [x]) ! j)" if "j < length xs" for j
        using False that by (auto simp: nth_append)
      ultimately show ?thesis using True
        by (auto intro!: exI[of _ "length xs"] simp: nth_append less_Suc_eq)
    next
      case nP: False
      with False f show ?thesis by (simp add: pick_step_def)
    qed
  next
    case True
    with snoc obtain i where i: "i < length xs" "P (xs ! i)"
      "fold (pick_step P g) xs (None, NegInf) = (Some (xs ! i), Fin (g (xs ! i)))"
      "\<forall>j<length xs. P (xs ! j) \<longrightarrow> g (xs ! j) \<le> g (xs ! i)"
      "\<forall>j<i. P (xs ! j) \<longrightarrow> g (xs ! j) < g (xs ! i)" by auto
    have ex: "\<exists>y\<in>set (xs @ [x]). P y" using True by auto
    show ?thesis
    proof (cases "P x \<and> g (xs ! i) < g x")
      case better: True
      have f: "fold (pick_step P g) (xs @ [x]) (None, NegInf) = (Some x, Fin (g x))"
        using better i(3) by (simp add: pick_step_def)
      have "\<exists>k<length (xs @ [x]). P ((xs @ [x]) ! k) \<and>
                 fold (pick_step P g) (xs @ [x]) (None, NegInf) =
                   (Some ((xs @ [x]) ! k), Fin (g ((xs @ [x]) ! k))) \<and>
                 (\<forall>j<length (xs @ [x]). P ((xs @ [x]) ! j) \<longrightarrow> g ((xs @ [x]) ! j) \<le> g ((xs @ [x]) ! k)) \<and>
                 (\<forall>j<k. P ((xs @ [x]) ! j) \<longrightarrow> g ((xs @ [x]) ! j) < g ((xs @ [x]) ! k))"
      proof (intro exI[of _ "length xs"] conjI allI impI)
        show "length xs < length (xs @ [x])" by simp
        show "P ((xs @ [x]) ! length xs)" using better by simp
        show "fold (pick_step P g) (xs @ [x]) (None, NegInf) =
          (Some ((xs @ [x]) ! length xs), Fin (g ((xs @ [x]) ! length xs)))" using f by simp
      next
        fix j assume j: "j < length (xs @ [x])" "P ((xs @ [x]) ! j)"
        show "g ((xs @ [x]) ! j) \<le> g ((xs @ [x]) ! length xs)"
        proof (cases "j < length xs")
          case True
          with j(2) i(4) have "g (xs ! j) \<le> g (xs ! i)" by (simp add: nth_append)
          with better True show ?thesis by (simp add: nth_append)
        next
          case False
          with j(1) have "j = length xs" by simp
          then show ?thesis by simp
        qed
      next
        fix j assume j: "j < length xs" "P ((xs @ [x]) ! j)"
        with i(4) have "g (xs ! j) \<le> g (xs ! i)" by (simp add: nth_append)
        with better j(1) show "g ((xs @ [x]) ! j) < g ((xs @ [x]) ! length xs)"
          by (simp add: nth_append)
      qed
      with ex show ?thesis by simp
    next
      case worse: False
      have f: "fold (pick_step P g) (xs @ [x]) (None, NegInf) = (Some (xs ! i), Fin (g (xs ! i)))"
        using worse i(3) by (auto simp: pick_step_def)
      have "\<exists>k<length (xs @ [x]). P ((xs @ [x]) ! k) \<and>
                 fold (pick_step P g) (xs @ [x]) (None, NegInf) =
                   (Some ((xs @ [x]) ! k), Fin (g ((xs @ [x]) ! k))) \<and>
                 (\<forall>j<length (xs @ [x]). P ((xs @ [x]) ! j) \<longrightarrow> g ((xs @ [x]) ! j) \<le> g ((xs @ [x]) ! k)) \<and>
                 (\<forall>j<k. P ((xs @ [x]) ! j) \<longrightarrow> g ((xs @ [x]) ! j) < g ((xs @ [x]) ! k))"
      proof (intro exI[of _ i] conjI allI impI)
        show "i < length (xs @ [x])" using i(1) by simp
        show "P ((xs @ [x]) ! i)" using i(1,2) by (simp add: nth_append)
        show "fold (pick_step P g) (xs @ [x]) (None, NegInf) =
          (Some ((xs @ [x]) ! i), Fin (g ((xs @ [x]) ! i)))" using f i(1) by (simp add: nth_append)
      next
        fix j assume j: "j < length (xs @ [x])" "P ((xs @ [x]) ! j)"
        show "g ((xs @ [x]) ! j) \<le> g ((xs @ [x]) ! i)"
        proof (cases "j < length xs")
          case True
          with j(2) i(1,4) show ?thesis by (simp add: nth_append)
        next
          case False
          with j have "j = length xs" "P x" by (simp_all add: nth_append)
          with worse i(1) show ?thesis by (simp add: nth_append)
        qed
      next
        fix j assume j: "j < i" "P ((xs @ [x]) ! j)"
        with i(1,5) show "g ((xs @ [x]) ! j) < g ((xs @ [x]) ! i)" by (simp add: nth_append)
      qed
      with ex show ?thesis by simp
    qed
  qed
qed

lemma is_square_attacked_total: "\<exists>v. is_square_attacked b r c by_color = Some v"
  by (simp only: is_square_attacked_char) blast

lemma pick_step_skip: "\<not> P x \<Longrightarrow> pick_step P g x acc = acc"
  by (simp add: pick_step_def)

lemma pick_step_take:
  "P x \<Longrightarrow> pick_step P g x (best, bv) =
     (if ext_less bv (Fin (g x)) then (Some x, Fin (g x)) else (best, bv))"
  by (simp add: pick_step_def)

lemma free_capture_loop_fold:
  assumes "wf_board b" "\<forall>m\<in>set mvs. move_in_bounds m"
  shows "free_capture_loop b self mvs best bv =
    Some (Inr (fst (fold (pick_step (safe_capture self b) (captured_value b)) mvs (best, bv))))"
  using assms(2)
proof (induction mvs arbitrary: best bv)
  case Nil
  then show ?case by simp
next
  case (Cons mv mvs)
  obtain er ec where e: "end_sq mv = (er, ec)" by (cases "end_sq mv")
  from Cons.prems have IH: "free_capture_loop b self mvs best' bv' =
    Some (Inr (fst (fold (pick_step (safe_capture self b) (captured_value b)) mvs (best', bv'))))"
    for best' bv' using Cons.IH by simp
  from Cons.prems have "move_in_bounds mv" by simp
  from simulate_ok[OF assms(1) this] obtain sim where sim: "move_piece (clone b) mv = Inr sim"
    by (auto simp: simulate_def)
  from is_square_attacked_total obtain v where
    v: "is_square_attacked sim er ec (if self = Black then White else Black) = Some v" by blast
  show ?case
  proof (cases "get b er ec")
    case None
    then have "\<not> safe_capture self b mv" by (simp add: safe_capture_def e)
    then show ?thesis using None IH by (simp add: e pick_step_skip)
  next
    case (Some target)
    show ?thesis
    proof (cases "color target \<noteq> self \<and> \<not> v")
      case False
      then have "\<not> safe_capture self b mv"
        using Some sim v by (auto simp: safe_capture_def e simulate_def)
      then show ?thesis using False Some sim v IH by (auto simp: e pick_step_skip)
    next
      case True
      then have sc: "safe_capture self b mv"
        using Some sim v by (simp add: safe_capture_def e simulate_def)
      have cv: "captured_value b mv = PIECE_VALUES (kind target)"
        using Some by (simp add: captured_value_def e)
      show ?thesis using True Some sim v IH sc cv
        by (simp add: e pick_step_take Let_def)
    qed
  qed
qed

lemma ext_less_neg: "ext_less (Fin e) bv \<longleftrightarrow> ext_less (ext_neg bv) (Fin (- e))"
  by (cases bv) simp_all

lemma material_loop_white:
  assumes "wf_board b" "\<forall>m\<in>set mvs. move_in_bounds m"
  shows "material_loop b White mvs best bv =
    Inr (fst (fold (pick_step (\<lambda>m. True) (material_after b)) mvs (best, bv)))"
  using assms(2)
proof (induction mvs arbitrary: best bv)
  case Nil
  then show ?case by simp
next
  case (Cons mv mvs)
  from Cons.prems have "move_in_bounds mv" by simp
  from simulate_ok[OF assms(1) this] obtain sim where sim: "move_piece (clone b) mv = Inr sim"
    by (auto simp: simulate_def)
  then have ma: "material_after b mv = material sim" by (simp add: material_after_def simulate_def)
  from Cons show ?case by (simp add: sim ma pick_step_take Let_def)
qed

lemma material_loop_black:
  assumes "wf_board b" "\<forall>m\<in>set mvs. move_in_bounds m"
  shows "material_loop b Black mvs best bv =
    Inr (fst (fold (pick_step (\<lambda>m. True) (\<lambda>m. - material_after b m)) mvs (best, ext_neg bv)))"
  using assms(2)
proof (induction mvs arbitrary: best bv)
  case Nil
  then show ?case by simp
next
  case (Cons mv mvs)
  from Cons.prems have "move_in_bounds mv" by simp
  from simulate_ok[OF assms(1) this] obtain sim where sim: "move_piece (clone b) mv = Inr sim"
    by (auto simp: simulate_def)
  then have ma: "material_after b mv = material sim" by (simp add: material_after_def simulate_def)
  from Cons show ?case by (simp add: sim ma pick_step_take Let_def ext_less_neg[symmetric])
qed

lemma generated_in_bounds:
  assumes "generate_moves b self = Some ms"
  shows "\<forall>m\<in>set ms. move_in_bounds m"
proof
  fix m assume "m \<in> set ms"
  with generate_moves_result[of b self] assms obtain r c p where
    "in_bounds r c" "lands_ok b self r c m" by (auto simp: generated_by_def)
  then show "move_in_bounds m" by (simp add: move_in_bounds_def lands_ok_def)
qed

lemma choose_move_unfold:
  assumes "wf_board b" "generate_moves b self = Some ms" "ms \<noteq> []"
  shows "choose_move self b =
    Some (Inr (case fst (fold (pick_step (safe_capture self b) (captured_value b)) ms (None, NegInf)) of
                 Some m \<Rightarrow> Some m
               | None \<Rightarrow>
                  (case fst (fold (pick_step (\<lambda>m. True)
                               (\<lambda>m. if self = White then material_after b m else - material_after b m))
                               ms (None, NegInf)) of
                     Some m \<Rightarrow> Some m
                   | None \<Rightarrow> Some (hd ms))))"
proof -
  note ib = generated_in_bounds[OF assms(2)]
  note fc = free_capture_loop_fold[OF assms(1) ib, of self None NegInf]
  show ?thesis
  proof (cases self)
    case White
    note ml = material_loop_white[OF assms(1) ib, of None NegInf]
    show ?thesis using assms(2,3) fc ml White
      by (cases ms) (simp_all add: choose_move_def split: option.split)
  next
    case Black
    note ml = material_loop_black[OF assms(1) ib, of None PosInf]
    show ?thesis using assms(2,3) fc ml Black
      by (cases ms) (simp_all add: choose_move_def split: option.split)
  qed
qed

lemma generated_simulation:
  assumes "wf_board b" "generate_moves b self = Some ms" "m \<in> set ms"
  shows "\<exists>sim p.
    simulate b m = Inr sim \<and>
    get b (fst (start m)) (snd (start m)) = Some p \<and> color p = self \<and>
    get sim (fst (start m)) (snd (start m)) = None \<and>
    get sim (fst (end_sq m)) (snd (end_sq m)) =
      Some (if promotion m = None then p else \<lparr>color = self, kind = Queen\<rparr>) \<and>
    (\<forall>r c. (r, c) \<noteq> start m \<and> (r, c) \<noteq> end_sq m \<longrightarrow> get sim r c = get b r c) \<and>
    (safe_capture self b m \<longleftrightarrow>
       (\<exists>t. get b (fst (end_sq m)) (snd (end_sq m)) = Some t \<and> color t \<noteq> self) \<and>
       is_square_attacked sim (fst (end_sq m)) (snd (end_sq m))
         (if self = Black then White else Black) = Some False)"
proof -
  from generate_moves_result[of b self] assms(2,3) obtain r c p where
    g: "in_bounds r c" "get b r c = Some p" "generated_by b self m r c p" by auto
  obtain er ec where e: "end_sq m = (er, ec)" by (cases "end_sq m")
  from g(3) e have col: "color p = self" and st: "start m = (r, c)"
    and ibe: "in_bounds er ec"
    and land: "case get b er ec of None \<Rightarrow> True | Some q \<Rightarrow> color q \<noteq> self"
    and pr: "promotion m =
      (if kind p = Pawn \<and> er = (if self = White then 0 else 7) then Some Queen else None)"
    by (simp_all add: generated_by_def lands_ok_def)
  have ne: "(r, c) \<noteq> (er, ec)"
  proof
    assume "(r, c) = (er, ec)"
    with g(2) land col show False by simp
  qed
  have mv: "m = \<lparr>start = (r, c), end_sq = (er, ec), promotion = promotion m\<rparr>"
    using st e by simp
  from move_piece_squares[OF assms(1) g(1) ibe ne, of "promotion m"] obtain sim where
    sim: "move_piece b \<lparr>start = (r, c), end_sq = (er, ec), promotion = promotion m\<rparr> = Inr sim"
      "get sim r c = None"
      "get sim er ec =
        (case (promotion m, get b r c) of
           (Some k, Some p) \<Rightarrow>
             if kind p = Pawn then Some \<lparr>color = color p, kind = k\<rparr> else Some p
         | (_, occ) \<Rightarrow> occ)"
      "\<forall>r' c'. (r', c') \<noteq> (r, c) \<and> (r', c') \<noteq> (er, ec) \<longrightarrow> get sim r' c' = get b r' c'"
    by blast
  have s: "simulate b m = Inr sim"
    unfolding simulate_def clone_id by (subst mv) (rule sim(1))
  have placed: "get sim er ec =
      Some (if promotion m = None then p else \<lparr>color = self, kind = Queen\<rparr>)"
    unfolding sim(3) g(2) using pr col by (simp split: if_splits)
  have safe: "safe_capture self b m \<longleftrightarrow>
       (\<exists>t. get b er ec = Some t \<and> color t \<noteq> self) \<and>
       is_square_attacked sim er ec (if self = Black then White else Black) = Some False"
    by (simp add: safe_capture_def e s split: option.split)
  from s g(2) col sim(2) placed sim(4) safe show ?thesis
    unfolding st e fst_conv snd_conv by blast
qed

section \<open>C2 and C3: the two tiers of choose_move\<close>

text \<open>
  C2. Let \<open>ms\<close> be the list \<^verbatim>\<open>generate_moves\<close> returns for the chooser's colour on a
  well-formed board, and let some move of \<open>ms\<close> be a safe capture. Every move of \<open>ms\<close>
  can be simulated on a clone, and the simulated position is the position after the move:
  the start square, which held a piece \<open>p\<close> of the chooser, is empty, the destination
  holds \<open>p\<close> (a queen of the chooser's colour when the move promotes) and every other
  square reads as before. A move is a safe capture exactly when its destination holds a
  piece of the other colour on the board and, in that simulated position, the destination
  is not attacked by the opponent. Then \<^verbatim>\<open>choose_move\<close> returns a move of \<open>ms\<close> that
  is a safe capture, no safe capture of \<open>ms\<close> takes a piece of greater material value, and
  every safe capture standing earlier in \<open>ms\<close> takes a piece of strictly smaller value.
\<close>

theorem safe_capture_tier:
  assumes "wf_board b" and "generate_moves b self = Some ms"
    and "\<exists>m\<in>set ms. safe_capture self b m"
  shows "(\<forall>m\<in>set ms. \<exists>sim p.
            simulate b m = Inr sim \<and>
            get b (fst (start m)) (snd (start m)) = Some p \<and> color p = self \<and>
            get sim (fst (start m)) (snd (start m)) = None \<and>
            get sim (fst (end_sq m)) (snd (end_sq m)) =
              Some (if promotion m = None then p else \<lparr>color = self, kind = Queen\<rparr>) \<and>
            (\<forall>r c. (r, c) \<noteq> start m \<and> (r, c) \<noteq> end_sq m \<longrightarrow> get sim r c = get b r c) \<and>
            (safe_capture self b m \<longleftrightarrow>
               (\<exists>t. get b (fst (end_sq m)) (snd (end_sq m)) = Some t \<and> color t \<noteq> self) \<and>
               is_square_attacked sim (fst (end_sq m)) (snd (end_sq m))
                 (if self = Black then White else Black) = Some False)) \<and>
         (\<exists>i<length ms.
            choose_move self b = Some (Inr (Some (ms ! i))) \<and>
            safe_capture self b (ms ! i) \<and>
            (\<forall>j<length ms. safe_capture self b (ms ! j) \<longrightarrow>
                 captured_value b (ms ! j) \<le> captured_value b (ms ! i)) \<and>
            (\<forall>j<i. safe_capture self b (ms ! j) \<longrightarrow>
                 captured_value b (ms ! j) < captured_value b (ms ! i)))"
proof
  show "\<forall>m\<in>set ms. \<exists>sim p.
            simulate b m = Inr sim \<and>
            get b (fst (start m)) (snd (start m)) = Some p \<and> color p = self \<and>
            get sim (fst (start m)) (snd (start m)) = None \<and>
            get sim (fst (end_sq m)) (snd (end_sq m)) =
              Some (if promotion m = None then p else \<lparr>color = self, kind = Queen\<rparr>) \<and>
            (\<forall>r c. (r, c) \<noteq> start m \<and> (r, c) \<noteq> end_sq m \<longrightarrow> get sim r c = get b r c) \<and>
            (safe_capture self b m \<longleftrightarrow>
               (\<exists>t. get b (fst (end_sq m)) (snd (end_sq m)) = Some t \<and> color t \<noteq> self) \<and>
               is_square_attacked sim (fst (end_sq m)) (snd (end_sq m))
                 (if self = Black then White else Black) = Some False)"
    using generated_simulation[OF assms(1,2)] by blast
next
  from assms(3) have ne: "ms \<noteq> []" by auto
  from pick_char[of ms "safe_capture self b" "captured_value b"] assms(3)
  obtain i where i: "i < length ms" "safe_capture self b (ms ! i)"
    "fold (pick_step (safe_capture self b) (captured_value b)) ms (None, NegInf) =
       (Some (ms ! i), Fin (captured_value b (ms ! i)))"
    "\<forall>j<length ms. safe_capture self b (ms ! j) \<longrightarrow>
         captured_value b (ms ! j) \<le> captured_value b (ms ! i)"
    "\<forall>j<i. safe_capture self b (ms ! j) \<longrightarrow>
         captured_value b (ms ! j) < captured_value b (ms ! i)"
    by (simp only: if_True) blast
  have "choose_move self b = Some (Inr (Some (ms ! i)))"
    unfolding choose_move_unfold[OF assms(1,2) ne] i(3) by simp
  with i show "\<exists>i<length ms.
            choose_move self b = Some (Inr (Some (ms ! i))) \<and>
            safe_capture self b (ms ! i) \<and>
            (\<forall>j<length ms. safe_capture self b (ms ! j) \<longrightarrow>
                 captured_value b (ms ! j) \<le> captured_value b (ms ! i)) \<and>
            (\<forall>j<i. safe_capture self b (ms ! j) \<longrightarrow>
                 captured_value b (ms ! j) < captured_value b (ms ! i))" by blast
qed

text \<open>
  C3. Let \<open>ms\<close> be the non-empty list \<^verbatim>\<open>generate_moves\<close> returns on a well-formed
  board, with no safe capture in it. Every move of \<open>ms\<close> can be simulated on a clone, and
  \<^verbatim>\<open>choose_move\<close> returns a move of \<open>ms\<close> whose simulation has the greatest
  \<^verbatim>\<open>material()\<close> when the chooser is White and the least when it is Black; every
  move standing earlier in \<open>ms\<close> is strictly worse.
\<close>

theorem one_ply_material_tier:
  assumes "wf_board b" and "generate_moves b self = Some ms" and "ms \<noteq> []"
    and "\<forall>m\<in>set ms. \<not> safe_capture self b m"
  shows "(\<forall>m\<in>set ms. \<exists>sim. simulate b m = Inr sim \<and> material_after b m = material sim) \<and>
    (\<exists>i<length ms.
       choose_move self b = Some (Inr (Some (ms ! i))) \<and>
       (if self = White
        then (\<forall>j<length ms. material_after b (ms ! j) \<le> material_after b (ms ! i)) \<and>
             (\<forall>j<i. material_after b (ms ! j) < material_after b (ms ! i))
        else (\<forall>j<length ms. material_after b (ms ! i) \<le> material_after b (ms ! j)) \<and>
             (\<forall>j<i. material_after b (ms ! i) < material_after b (ms ! j))))"
proof
  show "\<forall>m\<in>set ms. \<exists>sim. simulate b m = Inr sim \<and> material_after b m = material sim"
  proof
    fix m assume "m \<in> set ms"
    with generated_in_bounds[OF assms(2)] have "move_in_bounds m" by blast
    from simulate_ok[OF assms(1) this] show "\<exists>sim. simulate b m = Inr sim \<and> material_after b m = material sim"
      by (auto simp: material_after_def)
  qed
next
  let ?g = "\<lambda>m. if self = White then material_after b m else - material_after b m"
  from assms(4) have none: "\<not> (\<exists>m\<in>set ms. safe_capture self b m)" by blast
  from pick_char[of ms "safe_capture self b" "captured_value b"] none
  have cap: "fold (pick_step (safe_capture self b) (captured_value b)) ms (None, NegInf) = (None, NegInf)"
    by (simp only: if_False)
  from assms(3) have "\<exists>x\<in>set ms. True" by (cases ms) auto
  with pick_char[of ms "\<lambda>m. True" ?g]
  obtain i where i: "i < length ms"
    "fold (pick_step (\<lambda>m. True) ?g) ms (None, NegInf) = (Some (ms ! i), Fin (?g (ms ! i)))"
    "\<forall>j<length ms. ?g (ms ! j) \<le> ?g (ms ! i)"
    "\<forall>j<i. ?g (ms ! j) < ?g (ms ! i)"
    by (simp only: if_True simp_thms) blast
  have cm: "choose_move self b = Some (Inr (Some (ms ! i)))"
    unfolding choose_move_unfold[OF assms(1,2,3)] cap i(2) by simp
  show "\<exists>i<length ms.
       choose_move self b = Some (Inr (Some (ms ! i))) \<and>
       (if self = White
        then (\<forall>j<length ms. material_after b (ms ! j) \<le> material_after b (ms ! i)) \<and>
             (\<forall>j<i. material_after b (ms ! j) < material_after b (ms ! i))
        else (\<forall>j<length ms. material_after b (ms ! i) \<le> material_after b (ms ! j)) \<and>
             (\<forall>j<i. material_after b (ms ! i) < material_after b (ms ! j)))"
  proof (cases "self = White")
    case True
    with i cm show ?thesis by (intro exI[of _ i]) simp
  next
    case False
    with i cm show ?thesis by (intro exI[of _ i]) simp
  qed
qed

lemma wf_xray_board: "wf_board xray_board"
  by code_simp

text \<open>
  On \<open>xray_board\<close> the white rook can take a queen, a rook and a pawn. Before any move
  neither the queen's square nor the black rook's square is attacked by Black; after the
  rook has taken the queen, the black rook attacks it along the column the move opened.
  Only the capture of the pawn is safe, and it is the move chosen. On \<open>capture_board\<close>
  two safe captures take a pawn each, and the one generated first is chosen.
\<close>

theorem safe_capture_tier_witness:
  "wf_board xray_board \<and>
   generate_moves xray_board White = Some xray_board_moves \<and>
   map (safe_capture White xray_board) xray_board_moves =
     [False, False, False, False, False, False, False, True, False, False, False] \<and>
   map (captured_value xray_board) xray_board_moves = [0, 0, 9, 0, 0, 5, 0, 1, 0, 0, 0] \<and>
   is_square_attacked xray_board 1 4 Black = Some False \<and>
   is_square_attacked xray_board 7 4 Black = Some False \<and>
   (case simulate xray_board \<lparr>start = (4, 4), end_sq = (1, 4), promotion = None\<rparr> of
      Inl e \<Rightarrow> False
    | Inr sim \<Rightarrow> get sim 4 4 = None \<and> get sim 1 4 = Some \<lparr>color = White, kind = Rook\<rparr> \<and>
        is_square_attacked sim 1 4 Black = Some True) \<and>
   choose_move White xray_board =
     Some (Inr (Some \<lparr>start = (4, 4), end_sq = (4, 2), promotion = None\<rparr>)) \<and>
   wf_board capture_board \<and>
   generate_moves capture_board White = Some capture_board_moves \<and>
   map (safe_capture White capture_board) capture_board_moves =
     [False, False, False, False, False, False, False, True, False, True] \<and>
   captured_value capture_board (capture_board_moves ! 7) = 1 \<and>
   captured_value capture_board (capture_board_moves ! 9) = 1 \<and>
   choose_move White capture_board =
     Some (Inr (Some \<lparr>start = (4, 4), end_sq = (4, 2), promotion = None\<rparr>))"
proof -
  have xgm: "generate_moves xray_board White = Some xray_board_moves" by code_simp
  have xsafe: "map (safe_capture White xray_board) xray_board_moves =
     [False, False, False, False, False, False, False, True, False, False, False]" by code_simp
  have xcv: "map (captured_value xray_board) xray_board_moves = [0, 0, 9, 0, 0, 5, 0, 1, 0, 0, 0]"
    by code_simp
  have before: "is_square_attacked xray_board 1 4 Black = Some False"
    "is_square_attacked xray_board 7 4 Black = Some False" by code_simp+
  have after: "case simulate xray_board \<lparr>start = (4, 4), end_sq = (1, 4), promotion = None\<rparr> of
      Inl e \<Rightarrow> False
    | Inr sim \<Rightarrow> get sim 4 4 = None \<and> get sim 1 4 = Some \<lparr>color = White, kind = Rook\<rparr> \<and>
        is_square_attacked sim 1 4 Black = Some True" by code_simp
  have xlen: "length xray_board_moves = 11" by (simp add: xray_board_moves_def)
  have xnth: "safe_capture White xray_board (xray_board_moves ! k) =
      [False, False, False, False, False, False, False, True, False, False, False] ! k"
    if "k < 11" for k
    using arg_cong[OF xsafe, of "\<lambda>xs. xs ! k"] that by (simp add: xlen)
  have "safe_capture White xray_board (xray_board_moves ! 7)" using xnth[of 7] by simp
  then have xex: "\<exists>m\<in>set xray_board_moves. safe_capture White xray_board m"
    using xlen by (intro bexI[of _ "xray_board_moves ! 7"]) simp_all
  from safe_capture_tier[OF wf_xray_board xgm xex, THEN conjunct2] obtain i where i: "i < 11"
    "choose_move White xray_board = Some (Inr (Some (xray_board_moves ! i)))"
    "safe_capture White xray_board (xray_board_moves ! i)"
    unfolding xlen by blast
  have "list_all (\<lambda>k. [False, False, False, False, False, False, False, True, False, False, False] ! k
          \<longrightarrow> k = 7) [0..<11]" by code_simp
  with i(1) i(3) xnth[OF i(1)] have "i = 7" by (simp add: list_all_iff)
  with i(2) have xchoice: "choose_move White xray_board =
     Some (Inr (Some \<lparr>start = (4, 4), end_sq = (4, 2), promotion = None\<rparr>))"
    by (simp add: xray_board_moves_def)
  have gm: "generate_moves capture_board White = Some capture_board_moves" by code_simp
  have safe: "map (safe_capture White capture_board) capture_board_moves =
     [False, False, False, False, False, False, False, True, False, True]" by code_simp
  have cv: "captured_value capture_board (capture_board_moves ! 7) = 1"
    "captured_value capture_board (capture_board_moves ! 9) = 1"
    by code_simp+
  have len: "length capture_board_moves = 10" by (simp add: capture_board_moves_def)
  have nth: "safe_capture White capture_board (capture_board_moves ! k) =
      [False, False, False, False, False, False, False, True, False, True] ! k" if "k < 10" for k
    using arg_cong[OF safe, of "\<lambda>xs. xs ! k"] that by (simp add: len)
  have s7: "safe_capture White capture_board (capture_board_moves ! 7)" using nth[of 7] by simp
  then have ex: "\<exists>m\<in>set capture_board_moves. safe_capture White capture_board m"
    using len by (intro bexI[of _ "capture_board_moves ! 7"]) simp_all
  from safe_capture_tier[OF wf_capture_board gm ex, THEN conjunct2] obtain j where j: "j < 10"
    "choose_move White capture_board = Some (Inr (Some (capture_board_moves ! j)))"
    "safe_capture White capture_board (capture_board_moves ! j)"
    "\<forall>k<j. safe_capture White capture_board (capture_board_moves ! k) \<longrightarrow>
         captured_value capture_board (capture_board_moves ! k)
           < captured_value capture_board (capture_board_moves ! j)"
    unfolding len by blast
  have "list_all (\<lambda>k. [False, False, False, False, False, False, False, True, False, True] ! k
          \<longrightarrow> k = 7 \<or> k = 9) [0..<10]" by code_simp
  with j(1) j(3) nth[OF j(1)] have "j = 7 \<or> j = 9" by (simp add: list_all_iff)
  moreover have "j \<noteq> 9"
  proof
    assume "j = 9"
    with j(4)[rule_format, of 7] s7 cv show False by simp
  qed
  ultimately have "j = 7" by simp
  with j(2) have choice: "choose_move White capture_board =
     Some (Inr (Some \<lparr>start = (4, 4), end_sq = (4, 2), promotion = None\<rparr>))"
    by (simp add: capture_board_moves_def)
  from wf_xray_board xgm xsafe xcv before after xchoice wf_capture_board gm safe cv choice
  show ?thesis by (intro conjI)
qed

theorem one_ply_material_tier_witness:
  "wf_board trade_board \<and>
   generate_moves trade_board Black = Some trade_board_moves \<and>
   list_all (\<lambda>m. \<not> safe_capture Black trade_board m) trade_board_moves \<and>
   map (material_after trade_board) trade_board_moves =
     [- 3, - 3, - 3, - 3, - 3, - 3, - 3, - 3, - 3, - 3, - 3, - 3, - 8, - 3, - 3, - 3, - 3, - 3, - 3, - 3] \<and>
   choose_move Black trade_board =
     Some (Inr (Some \<lparr>start = (1, 4), end_sq = (4, 4), promotion = None\<rparr>))"
proof -
  let ?vals = "[- 3, - 3, - 3, - 3, - 3, - 3, - 3, - 3, - 3, - 3, - 3, - 3, - 8, - 3, - 3, - 3, - 3, - 3, - 3, - 3 :: int]"
  have wf: "wf_board trade_board" by code_simp
  have gm: "generate_moves trade_board Black = Some trade_board_moves" by code_simp
  have unsafe: "list_all (\<lambda>m. \<not> safe_capture Black trade_board m) trade_board_moves"
    by code_simp
  have vals: "map (material_after trade_board) trade_board_moves = ?vals" by code_simp
  have len: "length trade_board_moves = 20" by (simp add: trade_board_moves_def)
  have ne: "trade_board_moves \<noteq> []" using len by auto
  have none: "\<forall>m\<in>set trade_board_moves. \<not> safe_capture Black trade_board m"
    using unsafe by (simp add: list_all_iff)
  have nth: "material_after trade_board (trade_board_moves ! k) = ?vals ! k" if "k < 20" for k
    using arg_cong[OF vals, of "\<lambda>xs. xs ! k"] that by (simp add: len)
  from one_ply_material_tier[OF wf gm ne none] obtain i where i: "i < 20"
    "choose_move Black trade_board = Some (Inr (Some (trade_board_moves ! i)))"
    "\<forall>j<20. material_after trade_board (trade_board_moves ! i)
             \<le> material_after trade_board (trade_board_moves ! j)"
    unfolding len by auto
  from i(3)[rule_format, of 12] nth[of 12] nth[OF i(1)]
  have le: "?vals ! i \<le> - 8" by simp
  have "list_all (\<lambda>k. ?vals ! k \<le> - 8 \<longrightarrow> k = 12) [0..<20]" by code_simp
  with i(1) le have "i = 12" by (simp add: list_all_iff)
  with i(2) have "choose_move Black trade_board =
     Some (Inr (Some \<lparr>start = (1, 4), end_sq = (4, 4), promotion = None\<rparr>))"
    by (simp add: trade_board_moves_def)
  with wf gm unsafe vals show ?thesis by simp
qed

section \<open>Cloning and moving on the store\<close>

lemma cells_in_mono: "cells_in lo hi cs \<Longrightarrow> lo' \<le> lo \<Longrightarrow> hi \<le> hi' \<Longrightarrow> cells_in lo' hi' cs"
  by (auto simp: cells_in_def list_all_iff split: option.splits)

lemma cells_val_cong:
  assumes "cells_in lo hi cs" "\<And>q. lo \<le> q \<Longrightarrow> q < hi \<Longrightarrow> ps' ! q = ps ! q"
  shows "map (map_option (\<lambda>pa. ps' ! pa)) cs = map (map_option (\<lambda>pa. ps ! pa)) cs"
  using assms
  by (auto simp: cells_in_def list_all_iff split: option.splits intro!: map_option_cong)

lemma clone_cells_props:
  assumes "cells_in 0 (length (pieces h)) cs" and "clone_cells h cs = (cs', h')"
  shows "rows h' = rows h \<and> grids h' = grids h \<and> boards h' = boards h \<and>
    (\<exists>new. pieces h' = pieces h @ new) \<and>
    length cs' = length cs \<and>
    map (map_option (\<lambda>pa. pieces h' ! pa)) cs' = map (map_option (\<lambda>pa. pieces h ! pa)) cs \<and>
    cells_in (length (pieces h)) (length (pieces h')) cs'"
  using assms
proof (induction h cs arbitrary: cs' h' rule: clone_cells.induct)
  case (1 h)
  then show ?case by (simp add: cells_in_def)
next
  case (2 h cs)
  obtain cs1 h1 where r: "clone_cells h cs = (cs1, h1)" by (cases "clone_cells h cs")
  with "2.prems" have eq: "cs' = None # cs1" "h' = h1" by simp_all
  from "2.prems"(1) have "cells_in 0 (length (pieces h)) cs" by (simp add: cells_in_def)
  from "2.IH"[OF this r] show ?case unfolding eq by (simp add: cells_in_def)
next
  case (3 h pa cs)
  define p where "p = pieces h ! pa"
  define h1 where "h1 = h\<lparr>pieces := pieces h @ [\<lparr>color = color p, kind = kind p\<rparr>]\<rparr>"
  obtain cs2 h2 where r: "clone_cells h1 cs = (cs2, h2)" by (cases "clone_cells h1 cs")
  with "3.prems"(2) have eq: "cs' = Some (length (pieces h)) # cs2" "h' = h2"
    by (simp_all add: Let_def p_def h1_def)
  have p1: "pieces h1 = pieces h @ [p]" by (simp add: h1_def)
  from "3.prems"(1) have pa: "pa < length (pieces h)"
    and rest0: "cells_in 0 (length (pieces h)) cs"
    by (simp_all add: cells_in_def)
  from rest0 have rest: "cells_in 0 (length (pieces h1)) cs"
    by (rule cells_in_mono) (simp_all add: p1)
  note IH = "3.IH"[OF p_def h1_def rest r]
  from IH obtain new where new: "pieces h2 = pieces h1 @ new" by blast
  have nth_new: "pieces h2 ! length (pieces h) = p"
    by (simp add: new p1 nth_append)
  have m1: "map (map_option (\<lambda>pa. pieces h1 ! pa)) cs = map (map_option (\<lambda>pa. pieces h ! pa)) cs"
    using rest0 by (rule cells_val_cong) (simp add: p1 nth_append)
  from IH have "cells_in (length (pieces h1)) (length (pieces h2)) cs2" by simp
  then have mono: "cells_in (length (pieces h)) (length (pieces h2)) cs2"
    by (rule cells_in_mono) (simp_all add: p1)
  have lt: "length (pieces h) < length (pieces h2)" by (simp add: new p1)
  show ?case unfolding eq
    using IH m1 mono pa nth_new lt
    by (simp add: h1_def p_def new cells_in_def)
qed

lemma row_val_frame:
  assumes "rows h' ! ra = rows h ! ra" "cells_in 0 (length (pieces h)) (rows h ! ra)"
    "pieces h' = pieces h @ new"
  shows "row_val h' ra = row_val h ra"
  unfolding row_val_def assms(1)
  using assms(2) by (rule cells_val_cong) (simp add: assms(3) nth_append)

lemma clone_rows_props:
  assumes "rows_ok h ras" and "clone_rows h ras = (ras', h')"
  shows "grids h' = grids h \<and> boards h' = boards h \<and>
    (\<exists>np. pieces h' = pieces h @ np) \<and> (\<exists>nr. rows h' = rows h @ nr) \<and>
    length ras' = length ras \<and> distinct ras' \<and>
    list_all (\<lambda>ra. length (rows h) \<le> ra \<and> ra < length (rows h') \<and>
                   cells_in (length (pieces h)) (length (pieces h')) (rows h' ! ra)) ras' \<and>
    map (row_val h') ras' = map (row_val h) ras \<and>
    map (\<lambda>ra. length (rows h' ! ra)) ras' = map (\<lambda>ra. length (rows h ! ra)) ras"
  using assms
proof (induction h ras arbitrary: ras' h' rule: clone_rows.induct)
  case (1 h)
  then show ?case by simp
next
  case (2 h ra ras)
  obtain cells h1 where c: "clone_cells h (rows h ! ra) = (cells, h1)"
    by (cases "clone_cells h (rows h ! ra)")
  define h2 where "h2 = h1\<lparr>rows := rows h1 @ [cells]\<rparr>"
  obtain ras2 h3 where r: "clone_rows h2 ras = (ras2, h3)" by (cases "clone_rows h2 ras")
  from "2.prems"(2) c r have eq: "ras' = length (rows h1) # ras2" "h' = h3"
    by (simp_all add: Let_def h2_def)
  from "2.prems"(1) have ra: "ra < length (rows h)" "cells_in 0 (length (pieces h)) (rows h ! ra)"
    and ras: "rows_ok h ras" by (simp_all add: rows_ok_def)
  note cp = clone_cells_props[OF ra(2) c]
  from cp obtain np1 where np1: "pieces h1 = pieces h @ np1" by blast
  from cp have r1: "rows h1 = rows h" "grids h1 = grids h" "boards h1 = boards h" by simp_all
  have r2: "rows h2 = rows h @ [cells]" "pieces h2 = pieces h @ np1" "grids h2 = grids h"
    "boards h2 = boards h" by (simp_all add: h2_def r1 np1)
  have ok2: "rows_ok h2 ras"
    using ras unfolding rows_ok_def list_all_iff
    by (auto simp: r2 nth_append intro: cells_in_mono)
  note IH = "2.IH"[OF c[symmetric] h2_def ok2 r]
  from IH obtain np2 nr2 where ext: "pieces h3 = pieces h2 @ np2" "rows h3 = rows h2 @ nr2"
    by blast
  have new_row: "rows h3 ! length (rows h) = cells" by (simp add: ext r2 nth_append)
  have old_rows: "rows h2 ! q = rows h ! q" if "q < length (rows h)" for q
    using that by (simp add: r2 nth_append)
  have val_new: "row_val h3 (length (rows h)) = row_val h ra"
  proof -
    have "map (map_option (\<lambda>pa. pieces h3 ! pa)) cells = map (map_option (\<lambda>pa. pieces h1 ! pa)) cells"
      using cp by (intro cells_val_cong[of "length (pieces h)" "length (pieces h1)"])
                  (simp_all add: ext r2 np1 nth_append)
    with cp show ?thesis by (simp add: row_val_def new_row)
  qed
  have val_old: "map (row_val h2) ras = map (row_val h) ras"
  proof (rule map_cong[OF refl])
    fix q assume "q \<in> set ras"
    with ras have q: "q < length (rows h)" "cells_in 0 (length (pieces h)) (rows h ! q)"
      by (simp_all add: rows_ok_def list_all_iff)
    show "row_val h2 q = row_val h q"
      by (rule row_val_frame[OF old_rows[OF q(1)] q(2) r2(2)])
  qed
  have len_old: "map (\<lambda>ra. length (rows h2 ! ra)) ras = map (\<lambda>ra. length (rows h ! ra)) ras"
    using ras by (auto simp: rows_ok_def list_all_iff old_rows)
  have notin: "length (rows h) \<notin> set ras2"
    using IH by (auto simp: list_all_iff r2)
  have bounds: "list_all (\<lambda>ra. length (rows h) \<le> ra \<and> ra < length (rows h3) \<and>
                   cells_in (length (pieces h)) (length (pieces h3)) (rows h3 ! ra)) ras2"
    using IH unfolding list_all_iff
    by (auto simp: r2 intro: cells_in_mono)
  have b0: "cells_in (length (pieces h)) (length (pieces h3)) cells"
    using cp by (auto intro: cells_in_mono simp: ext r2 np1)
  have l0: "length cells = length (rows h ! ra)" using cp by simp
  show ?case unfolding eq
    using IH val_new val_old len_old notin bounds b0 l0 new_row
    by (simp add: r1 r2 ext)
qed

lemma untouched_refl: "untouched h h a"
  by (simp add: untouched_def list_all_iff)

lemma untouched_trans:
  assumes "untouched h h1 a" "untouched h1 h2 a"
  shows "untouched h h2 a"
  using assms unfolding untouched_def list_all_iff by auto

lemma untouched_keeps:
  assumes "wf_heap h a" "untouched h h1 a"
  shows "wf_heap h1 a" and "read_board h1 a = read_board h a"
    and "piece_refs h1 a = piece_refs h a"
proof -
  let ?g = "fst (boards h ! a)"
  from assms(2) obtain np where np: "pieces h1 = pieces h @ np"
    and len: "length (rows h) \<le> length (rows h1)" "length (grids h) \<le> length (grids h1)"
      "length (boards h) \<le> length (boards h1)"
    and b: "boards h1 ! a = boards h ! a" and g: "grids h1 ! ?g = grids h ! ?g"
    and r: "\<And>ra. ra \<in> set (grids h ! ?g) \<Longrightarrow> rows h1 ! ra = rows h ! ra"
    unfolding untouched_def list_all_iff by blast
  from assms(1) have wf: "a < length (boards h)" "?g < length (grids h)"
    "length (grids h ! ?g) = 8" "distinct (grids h ! ?g)"
    and wfr: "\<And>ra. ra \<in> set (grids h ! ?g) \<Longrightarrow>
        ra < length (rows h) \<and> length (rows h ! ra) = 8 \<and> cells_in 0 (length (pieces h)) (rows h ! ra)"
    unfolding wf_heap_def list_all_iff by blast+
  have "ra < length (rows h1) \<and> length (rows h1 ! ra) = 8 \<and>
        cells_in 0 (length (pieces h1)) (rows h1 ! ra)" if "ra \<in> set (grids h ! ?g)" for ra
  proof -
    from wfr[OF that] have "cells_in 0 (length (pieces h1)) (rows h ! ra)"
      by (auto intro: cells_in_mono simp: np)
    with wfr[OF that] r[OF that] len(1) show ?thesis by simp
  qed
  then show "wf_heap h1 a"
    unfolding wf_heap_def list_all_iff b g
    using wf len by simp
  have "row_val h1 ra = row_val h ra" if "ra \<in> set (grids h ! ?g)" for ra
    using row_val_frame[OF r[OF that] _ np] wfr[OF that] by simp
  then show "read_board h1 a = read_board h a"
    by (simp add: read_board_def b g)
  show "piece_refs h1 a = piece_refs h a"
    unfolding piece_refs_def b g
    by (rule arg_cong[where f = concat], rule map_cong[OF refl]) (simp add: r)
qed

lemma py_index_lt: "py_index n i = Some k \<Longrightarrow> k < n"
  by (auto simp: py_index_def split: if_splits)

lemma set_h_effect:
  assumes "set_h h a r c cell = Inr h1"
  shows "\<exists>ra j. ra \<in> set (grids h ! fst (boards h ! a)) \<and> j < length (rows h ! ra) \<and>
           h1 = h\<lparr>rows := (rows h)[ra := (rows h ! ra)[j := cell]]\<rparr>"
proof -
  let ?g = "grids h ! fst (boards h ! a)"
  from assms obtain i where i: "py_index (length ?g) r = Some i"
    by (auto simp: set_h_def Let_def split: option.splits)
  with assms obtain j where j: "py_index (length (rows h ! (?g ! i))) c = Some j"
    by (auto simp: set_h_def Let_def split: option.splits)
  from assms i j have "h1 = h\<lparr>rows := (rows h)[?g ! i := (rows h ! (?g ! i))[j := cell]]\<rparr>"
    by (simp add: set_h_def Let_def)
  moreover have "?g ! i \<in> set ?g" using py_index_lt[OF i] by simp
  ultimately show ?thesis using py_index_lt[OF j] by blast
qed

lemma wf_heapD:
  assumes "wf_heap h a"
  shows "a < length (boards h)" "fst (boards h ! a) < length (grids h)"
    "length (grids h ! fst (boards h ! a)) = 8" "distinct (grids h ! fst (boards h ! a))"
    "\<And>ra. ra \<in> set (grids h ! fst (boards h ! a)) \<Longrightarrow>
        ra < length (rows h) \<and> length (rows h ! ra) = 8 \<and> cells_in 0 (length (pieces h)) (rows h ! ra)"
  using assms unfolding wf_heap_def list_all_iff by blast+

lemma mem_piece_refs:
  "pa \<in> set (piece_refs h a) \<longleftrightarrow>
     (\<exists>ra\<in>set (grids h ! fst (boards h ! a)). Some pa \<in> set (rows h ! ra))"
  by (auto simp: piece_refs_def split: option.splits)

lemma refs_lt:
  assumes "wf_heap h a" "pa \<in> set (piece_refs h a)"
  shows "pa < length (pieces h)"
proof -
  from assms(2) obtain ra where ra: "ra \<in> set (grids h ! fst (boards h ! a))"
    "Some pa \<in> set (rows h ! ra)" unfolding mem_piece_refs by blast
  from wf_heapD(5)[OF assms(1) ra(1)] ra(2) show ?thesis
    by (auto simp: cells_in_def list_all_iff)
qed

lemma get_h_ref:
  assumes "wf_heap h a" "get_h h a r c = Some pa"
  shows "pa \<in> set (piece_refs h a)"
proof -
  let ?g = "grids h ! fst (boards h ! a)"
  from assms(2) have ib: "in_bounds r c" and pa: "rows h ! (?g ! nat r) ! nat c = Some pa"
    by (auto simp: get_h_def split: if_splits)
  from ib have r: "nat r < 8" "nat c < 8" by (auto simp: in_bounds_def)
  with wf_heapD(3)[OF assms(1)] have mem: "?g ! nat r \<in> set ?g" by simp
  from wf_heapD(5)[OF assms(1) mem] r(2) have "nat c < length (rows h ! (?g ! nat r))" by simp
  then have "rows h ! (?g ! nat r) ! nat c \<in> set (rows h ! (?g ! nat r))" by simp
  with pa mem show ?thesis unfolding mem_piece_refs by auto
qed

lemma sep_set_h:
  assumes sep: "separate h a a'"
    and cell: "case cell of None \<Rightarrow> True
               | Some pa \<Rightarrow> pa < length (pieces h) \<and> pa \<notin> set (piece_refs h a')"
    and set: "set_h h a r c cell = Inr h1"
  shows "separate h1 a a'" and "untouched h h1 a'"
proof -
  let ?g = "grids h ! fst (boards h ! a)" and ?g' = "grids h ! fst (boards h ! a')"
  from sep have wf: "wf_heap h a" and wf': "wf_heap h a'" and ne: "a \<noteq> a'"
    and gne: "fst (boards h ! a) \<noteq> fst (boards h ! a')"
    and rd: "set ?g \<inter> set ?g' = {}" and pd: "set (piece_refs h a) \<inter> set (piece_refs h a') = {}"
    unfolding separate_def by blast+
  from set_h_effect[OF set] obtain ra j where ra: "ra \<in> set ?g" "j < length (rows h ! ra)"
    and h1: "h1 = h\<lparr>rows := (rows h)[ra := (rows h ! ra)[j := cell]]\<rparr>" by blast
  from wf_heapD(5)[OF wf ra(1)] have ral: "ra < length (rows h)" by simp
  have same: "pieces h1 = pieces h" "grids h1 = grids h" "boards h1 = boards h"
    "length (rows h1) = length (rows h)" by (simp_all add: h1)
  have rows1: "rows h1 ! q = (if q = ra then (rows h ! ra)[j := cell] else rows h ! q)" for q
    using ral by (simp add: h1 nth_list_update)
  show unt: "untouched h h1 a'"
    unfolding untouched_def list_all_iff same
    using rd ra(1) by (auto simp: rows1)
  note keep = untouched_keeps[OF wf' unt]
  have cell_in: "cells_in 0 (length (pieces h)) ((rows h ! ra)[j := cell])"
    using wf_heapD(5)[OF wf ra(1)] cell
    by (auto simp: cells_in_def list_all_iff split: option.splits dest!: set_update_subset_insert[THEN subsetD])
  have wf1: "wf_heap h1 a"
    unfolding wf_heap_def list_all_iff same
    using wf_heapD[OF wf] cell_in by (auto simp: rows1)
  have refs1: "set (piece_refs h1 a) \<subseteq> set (piece_refs h a) \<union> set_option cell"
  proof
    fix pa assume "pa \<in> set (piece_refs h1 a)"
    then obtain q where q: "q \<in> set ?g" "Some pa \<in> set (rows h1 ! q)"
      unfolding mem_piece_refs same by blast
    show "pa \<in> set (piece_refs h a) \<union> set_option cell"
    proof (cases "q = ra")
      case False
      with q have "Some pa \<in> set (rows h ! q)" by (simp add: rows1)
      with q(1) have "pa \<in> set (piece_refs h a)" unfolding mem_piece_refs by blast
      then show ?thesis by simp
    next
      case True
      with q(2) have "Some pa \<in> set ((rows h ! ra)[j := cell])" by (simp add: rows1)
      then have "Some pa \<in> insert cell (set (rows h ! ra))"
        using set_update_subset_insert by fast
      then consider "cell = Some pa" | "Some pa \<in> set (rows h ! ra)" by auto
      then show ?thesis
      proof cases
        case 1
        then show ?thesis by simp
      next
        case 2
        with ra(1) have "pa \<in> set (piece_refs h a)" unfolding mem_piece_refs by blast
        then show ?thesis by simp
      qed
    qed
  qed
  have "set (piece_refs h1 a) \<inter> set (piece_refs h1 a') = {}"
    using refs1 pd cell unfolding keep(3) by (auto split: option.splits)
  with wf1 keep(1) ne gne rd show "separate h1 a a'"
    unfolding separate_def same by simp
qed

lemma sep_alloc:
  fixes p :: Piece
  assumes sep: "separate h a a'"
  defines "h1 \<equiv> h\<lparr>pieces := pieces h @ [p]\<rparr>"
  shows "separate h1 a a'" and "untouched h h1 a'" and "untouched h h1 a"
    and "length (pieces h) \<notin> set (piece_refs h1 a')"
proof -
  from sep have wf: "wf_heap h a" and wf': "wf_heap h a'" unfolding separate_def by blast+
  show unt': "untouched h h1 a'" and unt: "untouched h h1 a"
    by (simp_all add: untouched_def h1_def list_all_iff)
  note k = untouched_keeps[OF wf unt] and k' = untouched_keeps[OF wf' unt']
  have same: "grids h1 = grids h" "boards h1 = boards h" by (simp_all add: h1_def)
  from sep show "separate h1 a a'"
    unfolding separate_def same k(3) k'(3) using k(1) k'(1) by simp
  show "length (pieces h) \<notin> set (piece_refs h1 a')"
    unfolding k'(3) using refs_lt[OF wf'] by auto
qed

lemma sep_flip:
  fixes t :: color
  assumes sep: "separate h a a'"
  defines "h1 \<equiv> h\<lparr>boards := (boards h)[a := (fst (boards h ! a), t)]\<rparr>"
  shows "separate h1 a a'" and "untouched h h1 a'"
proof -
  from sep have wf: "wf_heap h a" and wf': "wf_heap h a'" and ne: "a \<noteq> a'"
    unfolding separate_def by blast+
  have b: "boards h1 ! a' = boards h ! a'" "fst (boards h1 ! a) = fst (boards h ! a)"
    "length (boards h1) = length (boards h)"
    using ne wf_heapD(1)[OF wf] by (simp_all add: h1_def)
  have same: "grids h1 = grids h" "rows h1 = rows h" "pieces h1 = pieces h"
    by (simp_all add: h1_def)
  show unt': "untouched h h1 a'"
    by (simp add: untouched_def same b list_all_iff)
  have wf1: "wf_heap h1 a" using wf unfolding wf_heap_def same b .
  have r1: "piece_refs h1 a = piece_refs h a" by (simp add: piece_refs_def same b)
  note k' = untouched_keeps[OF wf' unt']
  from sep show "separate h1 a a'"
    unfolding separate_def same b r1 k'(3) using wf1 k'(1) by simp
qed

lemma move_piece_h_sep:
  assumes sep: "separate h a a'"
  shows "separate (fst (move_piece_h h a mv)) a a' \<and> untouched h (fst (move_piece_h h a mv)) a'"
proof -
  obtain sr sc er ec where se: "start mv = (sr, sc)" "end_sq mv = (er, ec)"
    by (cases "start mv"; cases "end_sq mv") auto
  define piece where "piece = get_h h a sr sc"
  from sep have wf: "wf_heap h a" and wf': "wf_heap h a'"
    and pd: "set (piece_refs h a) \<inter> set (piece_refs h a') = {}"
    unfolding separate_def by blast+
  show ?thesis
  proof (cases "set_h h a sr sc None")
    case (Inl e)
    then have "fst (move_piece_h h a mv) = h" by (simp add: move_piece_h_def se)
    with sep show ?thesis by (simp add: untouched_refl)
  next
    case (Inr h1)
    have sep1: "separate h1 a a'" and unt1: "untouched h h1 a'"
      using sep_set_h[OF sep _ Inr] by simp_all
    define promoted where "promoted =
      (case (promotion mv, piece) of (Some k, Some pa) \<Rightarrow> kind (pieces h1 ! pa) = Pawn | _ \<Rightarrow> False)"
    define h2 where "h2 = (if promoted
                      then h1\<lparr>pieces := pieces h1 @
                              [\<lparr>color = color (pieces h1 ! the piece), kind = the (promotion mv)\<rparr>]\<rparr>
                      else h1)"
    define cell where "cell = (if promoted then Some (length (pieces h1)) else piece)"
    have sep2: "separate h2 a a'" and unt2: "untouched h1 h2 a'"
      using sep_alloc(1,2)[OF sep1] sep1 by (simp_all add: h2_def untouched_refl)
    note unt02 = untouched_trans[OF unt1 unt2]
    note k2 = untouched_keeps[OF wf' unt02]
    from unt02 obtain np where np: "pieces h2 = pieces h @ np" unfolding untouched_def by blast
    have cell_ok: "case cell of None \<Rightarrow> True
               | Some pa \<Rightarrow> pa < length (pieces h2) \<and> pa \<notin> set (piece_refs h2 a')"
    proof (cases promoted)
      case True
      with sep_alloc(4)[OF sep1] show ?thesis by (simp add: cell_def h2_def)
    next
      case False
      show ?thesis
      proof (cases piece)
        case None
        with False show ?thesis by (simp add: cell_def)
      next
        case (Some pa)
        with get_h_ref[OF wf] have "pa \<in> set (piece_refs h a)" by (simp add: piece_def)
        with pd refs_lt[OF wf] have "pa \<notin> set (piece_refs h a')" "pa < length (pieces h)" by auto
        with False Some show ?thesis by (simp add: cell_def k2(3) np)
      qed
    qed
    have mp: "move_piece_h h a mv =
        (case set_h h2 a er ec cell of
           Inl e \<Rightarrow> (h2, Some e)
         | Inr h3 \<Rightarrow>
             (h3\<lparr>boards := (boards h3)
                    [a := (fst (boards h3 ! a),
                           if snd (boards h3 ! a) = White then Black else White)]\<rparr>, None))"
      unfolding cell_def h2_def promoted_def piece_def
      by (simp add: move_piece_h_def se Inr Let_def)
    show ?thesis
    proof (cases "set_h h2 a er ec cell")
      case e: (Inl e)
      have "fst (move_piece_h h a mv) = h2"
        unfolding mp by (simp add: e)
      with sep2 unt02 show ?thesis by simp
    next
      case h3: (Inr h3)
      have sep3: "separate h3 a a'" and unt3: "untouched h2 h3 a'"
        using sep_set_h[OF sep2 cell_ok h3] by simp_all
      define h4 where "h4 = h3\<lparr>boards := (boards h3)
                          [a := (fst (boards h3 ! a),
                                 if snd (boards h3 ! a) = White then Black else White)]\<rparr>"
      have "fst (move_piece_h h a mv) = h4"
        unfolding mp by (simp add: h3 h4_def)
      moreover have "separate h4 a a'" "untouched h3 h4 a'"
        unfolding h4_def using sep_flip[OF sep3] by simp_all
      ultimately show ?thesis
        using untouched_trans[OF untouched_trans[OF unt02 unt3]] by simp
    qed
  qed
qed

lemma run_moves_sep:
  assumes "separate h a a'"
  shows "separate (run_moves h a mvs) a a' \<and> untouched h (run_moves h a mvs) a'"
  using assms
proof (induction mvs arbitrary: h)
  case Nil
  then show ?case by (simp add: run_moves_def untouched_refl)
next
  case (Cons mv mvs)
  let ?h1 = "fst (move_piece_h h a mv)"
  from move_piece_h_sep[OF Cons.prems] have s1: "separate ?h1 a a'" "untouched h ?h1 a'"
    by simp_all
  from Cons.IH[OF s1(1)] have "separate (run_moves ?h1 a mvs) a a'"
    "untouched ?h1 (run_moves ?h1 a mvs) a'" by simp_all
  moreover have "run_moves h a (mv # mvs) = run_moves ?h1 a mvs" by (simp add: run_moves_def)
  ultimately show ?case using untouched_trans[OF s1(2)] by simp
qed

lemma separate_sym: "separate h a a' \<Longrightarrow> separate h a' a"
  unfolding separate_def by (auto simp: Int_commute)

lemma clone_h_props:
  assumes wf: "wf_heap h a" and c: "clone_h h a = (a', h')"
  shows "separate h' a a'" and "untouched h h' a" and "read_board h' a' = read_board h a"
    and "a' = length (boards h)"
proof -
  obtain g t where gt: "boards h ! a = (g, t)" by (cases "boards h ! a")
  let ?rs = "grids h ! g"
  note w = wf_heapD[OF wf, unfolded gt fst_conv]
  have ok: "rows_ok h ?rs" unfolding rows_ok_def list_all_iff using w(5) by simp
  obtain ras h1 where cr: "clone_rows h ?rs = (ras, h1)" by (cases "clone_rows h ?rs")
  note p = clone_rows_props[OF ok cr]
  from p obtain np nr where ext: "pieces h1 = pieces h @ np" "rows h1 = rows h @ nr" by blast
  from p have same1: "grids h1 = grids h" "boards h1 = boards h" by simp_all
  from c gt cr have a': "a' = length (boards h)"
    and h': "h' = h1\<lparr>grids := grids h @ [ras], boards := boards h @ [(length (grids h), t)]\<rparr>"
    by (simp_all add: clone_h_def Let_def same1)
  show "a' = length (boards h)" by (rule a')
  have f: "pieces h' = pieces h @ np" "rows h' = rows h @ nr" "grids h' = grids h @ [ras]"
    "boards h' = boards h @ [(length (grids h), t)]" by (simp_all add: h' ext)
  have ba: "boards h' ! a = (g, t)" "boards h' ! a' = (length (grids h), t)"
    using w(1) by (simp_all add: f a' nth_append gt)
  have ga: "grids h' ! g = ?rs" "grids h' ! length (grids h) = ras"
    using w(2) by (simp_all add: f nth_append)
  have rows_old: "rows h' ! ra = rows h ! ra" if "ra \<in> set ?rs" for ra
    using w(5)[OF that] by (simp add: f nth_append)
  show unt: "untouched h h' a"
    unfolding untouched_def list_all_iff gt fst_conv
    using rows_old w(1,2) by (simp add: f nth_append gt)
  note k = untouched_keeps[OF wf unt]
  have rv: "row_val h' = row_val h1"
    by (simp add: fun_eq_iff row_val_def h')
  show rb: "read_board h' a' = read_board h a"
    using p by (simp add: read_board_def ba ga gt rv)
  have lens: "map (\<lambda>ra. length (rows h' ! ra)) ras = map (\<lambda>ra. length (rows h ! ra)) ?rs"
    using p by (simp add: h')
  have len8: "length (rows h' ! ra) = 8" if "ra \<in> set ras" for ra
  proof -
    from that have "length (rows h' ! ra) \<in> set (map (\<lambda>ra. length (rows h' ! ra)) ras)" by simp
    then have "length (rows h' ! ra) \<in> set (map (\<lambda>ra. length (rows h ! ra)) ?rs)"
      unfolding lens .
    with w(5) show ?thesis by auto
  qed
  have fresh: "length (rows h) \<le> ra \<and> ra < length (rows h') \<and>
      cells_in (length (pieces h)) (length (pieces h')) (rows h' ! ra)" if "ra \<in> set ras" for ra
    using p that by (simp add: list_all_iff h')
  have wf': "wf_heap h' a'"
    unfolding wf_heap_def list_all_iff ba fst_conv ga
    using p w(3) len8 fresh by (auto simp: f a' intro: cells_in_mono)
  have rd: "set ?rs \<inter> set ras = {}"
    using fresh w(5) by fastforce
  have pd: "set (piece_refs h' a) \<inter> set (piece_refs h' a') = {}"
  proof -
    have "pa < length (pieces h)" if "pa \<in> set (piece_refs h' a)" for pa
      using that refs_lt[OF wf] unfolding k(3) by simp
    moreover have "length (pieces h) \<le> pa" if "pa \<in> set (piece_refs h' a')" for pa
    proof -
      from that obtain ra where ra: "ra \<in> set ras" "Some pa \<in> set (rows h' ! ra)"
        unfolding mem_piece_refs ba fst_conv ga by blast
      from fresh[OF ra(1)] have "cells_in (length (pieces h)) (length (pieces h')) (rows h' ! ra)"
        by simp
      with ra(2) show ?thesis by (force simp: cells_in_def list_all_iff)
    qed
    ultimately show ?thesis by fastforce
  qed
  show "separate h' a a'"
    unfolding separate_def ba fst_conv ga
    using k(1) wf' w(1,2) rd pd by (simp add: a')
qed

section \<open>C5: a clone shares nothing with its original\<close>

text \<open>
  C5. Cloning a well-formed board object yields a board object that holds the same
  squares and the same \<^verbatim>\<open>to_move\<close>, leaves the original as it was, and shares no
  object with it: the two are different objects with different outer lists, no row list
  and no piece in common. Whatever sequence of \<^verbatim>\<open>move_piece\<close> calls is then made
  on the clone, every square and \<^verbatim>\<open>to_move\<close> of the original read as before the
  clone was made; and whatever sequence is made on the original, the clone reads as
  when it was made.
\<close>

theorem clone_independence:
  assumes "wf_heap h a" and "clone_h h a = (a', h')"
  shows "read_board h' a' = read_board h a \<and> read_board h' a = read_board h a \<and>
    separate h' a a' \<and>
    (\<forall>mvs. read_board (run_moves h' a' mvs) a = read_board h a) \<and>
    (\<forall>mvs. read_board (run_moves h' a mvs) a' = read_board h a)"
proof -
  note c = clone_h_props[OF assms]
  note k = untouched_keeps[OF assms(1) c(2)]
  from c(1) have wf: "wf_heap h' a" "wf_heap h' a'" unfolding separate_def by blast+
  have "read_board (run_moves h' a' mvs) a = read_board h a" for mvs
    using untouched_keeps(2)[OF wf(1)] run_moves_sep[OF separate_sym[OF c(1)], of mvs] k(2)
    by simp
  moreover have "read_board (run_moves h' a mvs) a' = read_board h a" for mvs
    using untouched_keeps(2)[OF wf(2)] run_moves_sep[OF c(1), of mvs] c(3)
    by simp
  ultimately show ?thesis using c k by simp
qed

theorem clone_independence_witness:
  "wf_heap initial_heap 0 \<and> fst (clone_h initial_heap 0) = 1 \<and>
   read_board initial_heap 0 = initial_board \<and>
   read_board (snd (clone_h initial_heap 0)) 1 = initial_board \<and>
   read_board (run_moves (snd (clone_h initial_heap 0)) 1
      [\<lparr>start = (6, 4), end_sq = (4, 4), promotion = None\<rparr>]) 0 = initial_board \<and>
   get (read_board (run_moves (snd (clone_h initial_heap 0)) 1
      [\<lparr>start = (6, 4), end_sq = (4, 4), promotion = None\<rparr>]) 1) 4 4 =
     Some \<lparr>color = White, kind = Pawn\<rparr> \<and>
   read_board (run_moves (snd (clone_h initial_heap 0)) 0
      [\<lparr>start = (6, 4), end_sq = (4, 4), promotion = None\<rparr>]) 1 = initial_board"
proof -
  let ?m = "\<lparr>start = (6, 4), end_sq = (4, 4), promotion = None\<rparr>"
  have wf: "wf_heap initial_heap 0" by code_simp
  have a': "fst (clone_h initial_heap 0) = 1" by code_simp
  have rb: "read_board initial_heap 0 = initial_board" by code_simp
  have c: "clone_h initial_heap 0 = (1, snd (clone_h initial_heap 0))"
    using a' by (simp add: prod_eq_iff)
  have moved: "get (read_board (run_moves (snd (clone_h initial_heap 0)) 1 [?m]) 1) 4 4 =
     Some \<lparr>color = White, kind = Pawn\<rparr>" by code_simp
  from clone_independence[OF wf c]
  have "read_board (snd (clone_h initial_heap 0)) 1 = initial_board"
    "read_board (run_moves (snd (clone_h initial_heap 0)) 1 [?m]) 0 = initial_board"
    "read_board (run_moves (snd (clone_h initial_heap 0)) 0 [?m]) 1 = initial_board"
    unfolding rb by blast+
  with wf a' rb moved show ?thesis by simp
qed

section \<open>The store refines the board values\<close>

lemma read_board_simps:
  "board (read_board h a) = map (row_val h) (grids h ! fst (boards h ! a))"
  "to_move (read_board h a) = snd (boards h ! a)"
  by (simp_all add: read_board_def)

lemma wf_read_board:
  assumes "wf_heap h a"
  shows "wf_board (read_board h a)"
  using wf_heapD[OF assms]
  by (auto simp: wf_board_def read_board_simps list_all_iff row_val_def)

lemma get_refines:
  assumes "wf_heap h a"
  shows "get (read_board h a) r c = map_option (\<lambda>pa. pieces h ! pa) (get_h h a r c)"
proof (cases "in_bounds r c")
  case False
  then show ?thesis by (simp add: get_def get_h_def)
next
  case True
  let ?g = "grids h ! fst (boards h ! a)"
  from True have r: "nat r < 8" "nat c < 8" by (auto simp: in_bounds_def)
  note w = wf_heapD[OF assms]
  from r w(3) have mem: "?g ! nat r \<in> set ?g" by simp
  from w(5)[OF mem] r(2) have c: "nat c < length (rows h ! (?g ! nat r))" by simp
  show ?thesis
    using True r w(3) c by (simp add: get_def get_h_def read_board_simps row_val_def)
qed

lemma map_update_distinct:
  assumes "distinct g" "i < length g"
  shows "map (\<lambda>x. if x = g ! i then v else f x) g = (map f g)[i := v]"
proof (rule nth_equalityI)
  show "length (map (\<lambda>x. if x = g ! i then v else f x) g) = length ((map f g)[i := v])" by simp
next
  fix k assume "k < length (map (\<lambda>x. if x = g ! i then v else f x) g)"
  then have k: "k < length g" by simp
  show "map (\<lambda>x. if x = g ! i then v else f x) g ! k = (map f g)[i := v] ! k"
  proof (cases "k = i")
    case True
    with k show ?thesis by simp
  next
    case False
    with assms k have "g ! k \<noteq> g ! i" by (simp add: nth_eq_iff_index_eq)
    with False k show ?thesis by simp
  qed
qed

lemma set_h_refines:
  assumes wf: "wf_heap h a" and ib: "in_bounds r c"
    and cell: "case cell of None \<Rightarrow> True | Some pa \<Rightarrow> pa < length (pieces h)"
  shows "\<exists>h1. set_h h a r c cell = Inr h1 \<and> wf_heap h1 a \<and>
    pieces h1 = pieces h \<and> boards h1 = boards h \<and> grids h1 = grids h \<and>
    read_board h1 a = (read_board h a)\<lparr>board := (board (read_board h a))
        [nat r := (board (read_board h a) ! nat r)[nat c := map_option (\<lambda>pa. pieces h ! pa) cell]]\<rparr>"
proof -
  let ?g = "grids h ! fst (boards h ! a)"
  let ?ra = "?g ! nat r"
  from ib have r: "0 \<le> r" "r < 8" "0 \<le> c" "c < 8" by (auto simp: in_bounds_def)
  note w = wf_heapD[OF wf]
  from r w(3) have mem: "?ra \<in> set ?g" and rl: "nat r < length ?g" by simp_all
  note wr = w(5)[OF mem]
  define h1 where "h1 = h\<lparr>rows := (rows h)[?ra := (rows h ! ?ra)[nat c := cell]]\<rparr>"
  have s: "set_h h a r c cell = Inr h1"
    using r w(3) wr by (simp add: set_h_def Let_def py_index_in h1_def)
  have same: "pieces h1 = pieces h" "boards h1 = boards h" "grids h1 = grids h"
    by (simp_all add: h1_def)
  have lr: "length (rows h1) = length (rows h)" by (simp add: h1_def)
  have rows1: "rows h1 ! q = (if q = ?ra then (rows h ! ?ra)[nat c := cell] else rows h ! q)" for q
    using wr by (simp add: h1_def nth_list_update)
  have cell_in: "cells_in 0 (length (pieces h)) ((rows h ! ?ra)[nat c := cell])"
    using wr cell
    by (auto simp: cells_in_def list_all_iff split: option.splits
             dest!: set_update_subset_insert[THEN subsetD])
  have wf1: "wf_heap h1 a"
    unfolding wf_heap_def list_all_iff same lr
    using w cell_in by (auto simp: rows1)
  have rv: "row_val h1 q = (if q = ?ra then (row_val h ?ra)[nat c := map_option (\<lambda>pa. pieces h ! pa) cell]
                            else row_val h q)" for q
    by (simp add: row_val_def rows1 same map_update)
  have "map (row_val h1) ?g = (map (row_val h) ?g)
          [nat r := (row_val h ?ra)[nat c := map_option (\<lambda>pa. pieces h ! pa) cell]]"
    unfolding rv by (rule map_update_distinct[OF w(4) rl])
  then have "read_board h1 a = (read_board h a)\<lparr>board := (board (read_board h a))
        [nat r := (board (read_board h a) ! nat r)[nat c := map_option (\<lambda>pa. pieces h ! pa) cell]]\<rparr>"
    using rl by (simp add: read_board_def same)
  with s wf1 same show ?thesis by blast
qed

lemma move_piece_h_refines:
  assumes wf: "wf_heap h a" and ib: "move_in_bounds mv"
  shows "\<exists>h'. move_piece_h h a mv = (h', None) \<and>
               move_piece (read_board h a) mv = Inr (read_board h' a) \<and> wf_heap h' a"
proof -
  obtain sr sc er ec where se: "start mv = (sr, sc)" "end_sq mv = (er, ec)"
    by (cases "start mv"; cases "end_sq mv") auto
  then have mv: "mv = \<lparr>start = (sr, sc), end_sq = (er, ec), promotion = promotion mv\<rparr>" by simp
  from ib se have ibs: "in_bounds sr sc" and ibe: "in_bounds er ec"
    by (simp_all add: move_in_bounds_def)
  define b where "b = read_board h a"
  define piece where "piece = get_h h a sr sc"
  have gb: "get b sr sc = map_option (\<lambda>pa. pieces h ! pa) piece"
    unfolding b_def piece_def by (rule get_refines[OF wf])
  have piece_lt: "pa < length (pieces h)" if "piece = Some pa" for pa
    using refs_lt[OF wf get_h_ref[OF wf]] that by (simp add: piece_def)
  define b1 where "b1 = b\<lparr>board := (board b)[nat sr := (board b ! nat sr)[nat sc := None]]\<rparr>"
  define placed where "placed = (case (promotion mv, get b sr sc) of
                        (Some k, Some p) \<Rightarrow>
                          if kind p = Pawn then Some \<lparr>color = color p, kind = k\<rparr> else Some p
                      | (_, occ) \<Rightarrow> occ)"
  have pure: "move_piece b mv =
      Inr (b1\<lparr>board := (board b1)[nat er := (board b1 ! nat er)[nat ec := placed]],
              to_move := (if to_move b = White then Black else White)\<rparr>)"
    unfolding b1_def placed_def
    by (subst mv) (rule move_piece_in_bounds[OF wf_read_board[OF wf, folded b_def] ibs ibe])
  from set_h_refines[OF wf ibs, of None] obtain h1 where h1: "set_h h a sr sc None = Inr h1"
    "wf_heap h1 a" "pieces h1 = pieces h" "boards h1 = boards h" "read_board h1 a = b1"
    by (auto simp: b_def b1_def)
  define promoted where "promoted =
      (case (promotion mv, piece) of (Some k, Some pa) \<Rightarrow> kind (pieces h1 ! pa) = Pawn | _ \<Rightarrow> False)"
  define h2 where "h2 = (if promoted
                      then h1\<lparr>pieces := pieces h1 @
                              [\<lparr>color = color (pieces h1 ! the piece), kind = the (promotion mv)\<rparr>]\<rparr>
                      else h1)"
  define cell where "cell = (if promoted then Some (length (pieces h1)) else piece)"
  have mp: "move_piece_h h a mv =
        (case set_h h2 a er ec cell of
           Inl e \<Rightarrow> (h2, Some e)
         | Inr h3 \<Rightarrow>
             (h3\<lparr>boards := (boards h3)
                    [a := (fst (boards h3 ! a),
                           if snd (boards h3 ! a) = White then Black else White)]\<rparr>, None))"
    unfolding cell_def h2_def promoted_def piece_def
    by (simp add: move_piece_h_def se h1(1) Let_def)
  have unt2: "untouched h1 h2 a"
    by (simp add: h2_def untouched_def list_all_iff)
  note k2 = untouched_keeps[OF h1(2) unt2]
  have b2: "boards h2 = boards h" by (simp add: h2_def h1(4))
  have cell_ok: "case cell of None \<Rightarrow> True | Some pa \<Rightarrow> pa < length (pieces h2)"
    using piece_lt by (auto simp: cell_def h2_def h1(3) split: option.splits)
  have cell_val: "map_option (\<lambda>pa. pieces h2 ! pa) cell = placed"
  proof (cases promoted)
    case True
    then obtain k pa where kp: "promotion mv = Some k" "piece = Some pa"
      "kind (pieces h ! pa) = Pawn"
      by (auto simp: promoted_def h1(3) split: option.splits)
    with True show ?thesis
      by (simp add: cell_def h2_def placed_def gb h1(3))
  next
    case False
    then have h2h: "pieces h2 = pieces h" and c: "cell = piece"
      by (simp_all add: h2_def cell_def h1(3))
    from False show ?thesis
      unfolding c h2h placed_def gb
      by (auto simp: promoted_def h1(3) split: option.splits)
  qed
  from set_h_refines[OF k2(1) ibe cell_ok] obtain h3 where h3: "set_h h2 a er ec cell = Inr h3"
    "wf_heap h3 a" "boards h3 = boards h2" "grids h3 = grids h2"
    "read_board h3 a = b1\<lparr>board := (board b1)[nat er := (board b1 ! nat er)[nat ec := placed]]\<rparr>"
    unfolding k2(2) h1(5) cell_val by blast
  define h4 where "h4 = h3\<lparr>boards := (boards h3)
                    [a := (fst (boards h3 ! a),
                           if snd (boards h3 ! a) = White then Black else White)]\<rparr>"
  have mp4: "move_piece_h h a mv = (h4, None)" unfolding mp by (simp add: h3(1) h4_def)
  note w3 = wf_heapD[OF h3(2)]
  have b4: "boards h4 ! a = (fst (boards h3 ! a), if to_move b = White then Black else White)"
    "grids h4 = grids h3" "rows h4 = rows h3" "pieces h4 = pieces h3"
    "length (boards h4) = length (boards h3)"
    using w3(1) by (simp_all add: h4_def h3(3) b2 b_def read_board_simps)
  have wf4: "wf_heap h4 a"
    using h3(2) unfolding wf_heap_def b4 fst_conv .
  have "read_board h4 a = (read_board h3 a)\<lparr>to_move := (if to_move b = White then Black else White)\<rparr>"
    by (simp add: read_board_def b4 row_val_def[abs_def])
  then have "read_board h4 a = b1\<lparr>board := (board b1)[nat er := (board b1 ! nat er)[nat ec := placed]],
              to_move := (if to_move b = White then Black else White)\<rparr>"
    unfolding h3(5) by simp
  with mp4 wf4 pure show ?thesis unfolding b_def by simp
qed

lemma simulate_h:
  assumes wf: "wf_heap h a" and ib: "move_in_bounds mv"
  shows "\<exists>sim h1 h2. clone_h h a = (sim, h1) \<and> move_piece_h h1 sim mv = (h2, None) \<and>
           move_piece (clone (read_board h a)) mv = Inr (read_board h2 sim) \<and>
           untouched h h2 a \<and> wf_heap h2 a"
proof -
  obtain sim h1 where c: "clone_h h a = (sim, h1)" by (cases "clone_h h a")
  note cp = clone_h_props[OF wf c]
  from cp(1) have wfs: "wf_heap h1 sim" unfolding separate_def by blast
  from move_piece_h_refines[OF wfs ib] obtain h2 where h2: "move_piece_h h1 sim mv = (h2, None)"
    "move_piece (read_board h1 sim) mv = Inr (read_board h2 sim)" by blast
  from move_piece_h_sep[OF separate_sym[OF cp(1)], of mv] h2(1)
  have "untouched h1 h2 a" by simp
  with cp(2) have unt: "untouched h h2 a" by (rule untouched_trans)
  from untouched_keeps(1)[OF wf unt] h2 c unt show ?thesis
    by (simp add: clone_id cp(3))
qed

lemma free_capture_loop_h_refines:
  assumes "wf_heap h a" "\<forall>m\<in>set mvs. move_in_bounds m"
  shows "\<exists>h'. free_capture_loop_h self a mvs best bv h =
                 (free_capture_loop (read_board h a) self mvs best bv, h') \<and> untouched h h' a"
  using assms
proof (induction mvs arbitrary: best bv h)
  case Nil
  then show ?case by (simp add: untouched_refl)
next
  case (Cons mv mvs)
  obtain er ec where e: "end_sq mv = (er, ec)" by (cases "end_sq mv")
  note wf = Cons.prems(1)
  from Cons.prems(2) have ib: "move_in_bounds mv" and ibs: "\<forall>m\<in>set mvs. move_in_bounds m"
    by simp_all
  note g = get_refines[OF wf, of er ec]
  have same: "\<exists>h'. free_capture_loop_h self a mvs best' bv' h =
                 (free_capture_loop (read_board h a) self mvs best' bv', h') \<and> untouched h h' a"
    for best' bv' by (rule Cons.IH[OF wf ibs])
  show ?case
  proof (cases "get_h h a er ec")
    case None
    with g same[of best bv] show ?thesis by (simp add: e)
  next
    case (Some ta)
    define target where "target = pieces h ! ta"
    from g Some have gt: "get (read_board h a) er ec = Some target" by (simp add: target_def)
    show ?thesis
    proof (cases "color target \<noteq> self")
      case False
      with gt Some same[of best bv] show ?thesis by (simp add: e target_def)
    next
      case True
      from simulate_h[OF wf ib] obtain sim h1 h2 where s: "clone_h h a = (sim, h1)"
        "move_piece_h h1 sim mv = (h2, None)"
        "move_piece (clone (read_board h a)) mv = Inr (read_board h2 sim)"
        "untouched h h2 a" "wf_heap h2 a" by blast
      note rb = untouched_keeps(2)[OF wf s(4)]
      have later: "\<exists>h'. free_capture_loop_h self a mvs best' bv' h2 =
                 (free_capture_loop (read_board h a) self mvs best' bv', h') \<and> untouched h h' a"
        for best' bv'
        using Cons.IH[OF s(5) ibs, of best' bv'] untouched_trans[OF s(4)] by (auto simp: rb)
      from is_square_attacked_total obtain v where
        v: "is_square_attacked (read_board h2 sim) er ec (if self = Black then White else Black) = Some v"
        by blast
      show ?thesis
      proof (cases "\<not> v \<and> ext_less bv (Fin (PIECE_VALUES (kind target)))")
        case take: True
        with later[of "Some mv" "Fin (PIECE_VALUES (kind target))"] True gt Some s v
        show ?thesis by (simp add: e target_def Let_def)
      next
        case keep: False
        with later[of best bv] True gt Some s v
        show ?thesis by (auto simp: e target_def Let_def)
      qed
    qed
  qed
qed

lemma material_loop_h_refines:
  assumes "wf_heap h a" "\<forall>m\<in>set mvs. move_in_bounds m"
  shows "\<exists>h'. material_loop_h self a mvs best bv h =
                 (material_loop (read_board h a) self mvs best bv, h') \<and> untouched h h' a"
  using assms
proof (induction mvs arbitrary: best bv h)
  case Nil
  then show ?case by (simp add: untouched_refl)
next
  case (Cons mv mvs)
  note wf = Cons.prems(1)
  from Cons.prems(2) have ib: "move_in_bounds mv" and ibs: "\<forall>m\<in>set mvs. move_in_bounds m"
    by simp_all
  from simulate_h[OF wf ib] obtain sim h1 h2 where s: "clone_h h a = (sim, h1)"
    "move_piece_h h1 sim mv = (h2, None)"
    "move_piece (clone (read_board h a)) mv = Inr (read_board h2 sim)"
    "untouched h h2 a" "wf_heap h2 a" by blast
  note rb = untouched_keeps(2)[OF wf s(4)]
  have later: "\<exists>h'. material_loop_h self a mvs best' bv' h2 =
                 (material_loop (read_board h a) self mvs best' bv', h') \<and> untouched h h' a"
    for best' bv'
    using Cons.IH[OF s(5) ibs, of best' bv'] untouched_trans[OF s(4)] by (auto simp: rb)
  define ev where "ev = material (read_board h2 sim)"
  show ?case
  proof (cases "if self = White then ext_less bv (Fin ev) else ext_less (Fin ev) bv")
    case True
    with later[of "Some mv" "Fin ev"] s show ?thesis
      by (auto simp: Let_def ev_def split: if_splits)
  next
    case False
    with later[of best bv] s show ?thesis
      by (auto simp: Let_def ev_def split: if_splits)
  qed
qed

lemma choose_move_h_refines:
  assumes wf: "wf_heap h a"
  shows "\<exists>h'. choose_move_h self h a = (choose_move self (read_board h a), h') \<and> untouched h h' a"
proof -
  from generate_moves_result[of "read_board h a" self] obtain ms where
    ms: "generate_moves (read_board h a) self = Some ms" by blast
  note ib = generated_in_bounds[OF ms]
  show ?thesis
  proof (cases "ms = []")
    case True
    with ms show ?thesis by (simp add: choose_move_h_def choose_move_def untouched_refl)
  next
    case False
    from free_capture_loop_h_refines[OF wf ib, of self None NegInf] obtain h1 where
      h1: "free_capture_loop_h self a ms None NegInf h =
             (free_capture_loop (read_board h a) self ms None NegInf, h1)" "untouched h h1 a"
      by blast
    note k1 = untouched_keeps[OF wf h1(2)]
    from material_loop_h_refines[OF k1(1) ib, of self None "if self = White then NegInf else PosInf"]
    obtain h2 where h2: "material_loop_h self a ms None (if self = White then NegInf else PosInf) h1 =
             (material_loop (read_board h a) self ms None (if self = White then NegInf else PosInf), h2)"
      "untouched h1 h2 a" unfolding k1(2) by blast
    note u2 = untouched_trans[OF h1(2) h2(2)]
    show ?thesis
      using ms False h1 h2 u2
      by (auto simp: choose_move_h_def choose_move_def split: option.splits sum.splits)
  qed
qed

section \<open>C6: when choose_move returns None, and what it leaves behind\<close>

lemma pick_mem:
  assumes "fst (fold (pick_step P g) xs (None, NegInf)) = Some m"
  shows "m \<in> set xs"
proof (cases "\<exists>x\<in>set xs. P x")
  case True
  with pick_char[of xs P g] obtain i where "i < length xs"
    "fold (pick_step P g) xs (None, NegInf) = (Some (xs ! i), Fin (g (xs ! i)))"
    by (simp only: if_True) blast
  with assms show ?thesis by auto
next
  case False
  with pick_char[of xs P g] have "fold (pick_step P g) xs (None, NegInf) = (None, NegInf)"
    by (simp only: if_False)
  with assms show ?thesis by simp
qed

lemma choose_move_result:
  assumes "wf_board b" "generate_moves b self = Some ms"
  shows "\<exists>r. choose_move self b = Some (Inr r) \<and> (r = None \<longleftrightarrow> ms = []) \<and>
             (ms \<noteq> [] \<longrightarrow> (\<exists>m\<in>set ms. r = Some m))"
proof (cases "ms = []")
  case True
  with assms(2) show ?thesis by (simp add: choose_move_def)
next
  case False
  let ?cap = "fst (fold (pick_step (safe_capture self b) (captured_value b)) ms (None, NegInf))"
  let ?mat = "fst (fold (pick_step (\<lambda>m. True)
                 (\<lambda>m. if self = White then material_after b m else - material_after b m))
                 ms (None, NegInf))"
  note cm = choose_move_unfold[OF assms False]
  have hd: "hd ms \<in> set ms" using False by simp
  consider m where "?cap = Some m" | m where "?cap = None" "?mat = Some m"
    | "?cap = None" "?mat = None"
    by (cases ?cap; cases ?mat) auto
  then show ?thesis
  proof cases
    case 1
    with pick_mem[OF 1] False show ?thesis unfolding cm by auto
  next
    case 2
    with pick_mem[OF 2(2)] False show ?thesis unfolding cm by auto
  next
    case 3
    with hd False show ?thesis unfolding cm by auto
  qed
qed

text \<open>
  C6. Called on a well-formed board object, \<^verbatim>\<open>choose_move\<close> returns normally, with
  the result the value-level \<open>choose_move\<close> computes from the board the object holds.
  The result is \<^verbatim>\<open>None\<close> exactly when \<^verbatim>\<open>generate_moves\<close> returns the empty
  list, and otherwise it is one of the generated moves. Afterwards the board object holds
  the same squares and the same \<^verbatim>\<open>to_move\<close>: the call only added objects to the
  store and wrote to none of the objects of the input board.
\<close>

theorem choose_move_none_iff_no_moves:
  assumes "wf_heap h a"
  shows "\<exists>ms r h'. generate_moves (read_board h a) self = Some ms \<and>
    choose_move_h self h a = (Some (Inr r), h') \<and>
    choose_move self (read_board h a) = Some (Inr r) \<and>
    (r = None \<longleftrightarrow> ms = []) \<and>
    (ms \<noteq> [] \<longrightarrow> (\<exists>m\<in>set ms. r = Some m)) \<and>
    read_board h' a = read_board h a \<and> untouched h h' a"
proof -
  from generate_moves_result[of "read_board h a" self] obtain ms where
    ms: "generate_moves (read_board h a) self = Some ms" by blast
  from choose_move_result[OF wf_read_board[OF assms] ms] obtain r where
    r: "choose_move self (read_board h a) = Some (Inr r)" "r = None \<longleftrightarrow> ms = []"
    "ms \<noteq> [] \<longrightarrow> (\<exists>m\<in>set ms. r = Some m)" by blast
  from choose_move_h_refines[OF assms, of self] obtain h' where
    h': "choose_move_h self h a = (choose_move self (read_board h a), h')" "untouched h h' a"
    by blast
  from untouched_keeps(2)[OF assms h'(2)] ms r h' show ?thesis by auto
qed

theorem choose_move_none_iff_no_moves_witness:
  "wf_heap initial_heap 0 \<and> wf_heap bare_heap 0 \<and>
   fst (choose_move_h White initial_heap 0) =
     Some (Inr (Some \<lparr>start = (6, 0), end_sq = (5, 0), promotion = None\<rparr>)) \<and>
   \<lparr>start = (6, 0), end_sq = (5, 0), promotion = None\<rparr>
     \<in> set (the (generate_moves initial_board White)) \<and>
   read_board (snd (choose_move_h White initial_heap 0)) 0 = initial_board \<and>
   generate_moves (read_board bare_heap 0) Black = Some [] \<and>
   fst (choose_move_h Black bare_heap 0) = Some (Inr None)"
proof -
  let ?m = "\<lparr>start = (6, 0), end_sq = (5, 0), promotion = None\<rparr>"
  have wf: "wf_heap initial_heap 0" "wf_heap bare_heap 0" by code_simp+
  have rb: "read_board initial_heap 0 = initial_board" by code_simp
  have cm: "choose_move White initial_board = Some (Inr (Some ?m))" by code_simp
  have mem: "?m \<in> set (the (generate_moves initial_board White))" by code_simp
  have gm: "generate_moves (read_board bare_heap 0) Black = Some []" by code_simp
  from choose_move_none_iff_no_moves[OF wf(1), of White]
  have a: "fst (choose_move_h White initial_heap 0) = Some (Inr (Some ?m))"
    "read_board (snd (choose_move_h White initial_heap 0)) 0 = initial_board"
    unfolding rb cm by auto
  from choose_move_none_iff_no_moves[OF wf(2), of Black]
  have b: "fst (choose_move_h Black bare_heap 0) = Some (Inr None)"
    unfolding gm by auto
  from wf a mem gm b show ?thesis by simp
qed

end
